theory Spec2Isabelle
  imports Main
begin

section \<open>Python values and the object store\<close>

text \<open>
  The program is \<^verbatim>\<open>tick-tack-toe.py\<close>: a model (\<^verbatim>\<open>TTTModelScale\<close>), a console view
  (\<^verbatim>\<open>TTTView\<close>) and a controller. The play-field is a Python list of lists of
  one-character strings. Lists are mutable objects reached through references, and
  \<^verbatim>\<open>getData\<close> hands a \<^verbatim>\<open>copy.copy\<close> of the field to the observers, so the model
  below keeps the list objects in an explicit store: an outer list is a list of
  references to row lists, a row list is a list of characters.
\<close>

datatype py_error = IndexError | ValueError | EOFError

type_synonym addr = nat

record heap =
  lists :: "addr \<Rightarrow> addr list"
  rows :: "addr \<Rightarrow> char list"
  fresh :: addr

definition new_list :: "addr list \<Rightarrow> heap \<Rightarrow> addr \<times> heap" where
  "new_list xs h = (fresh h, h\<lparr>lists := (lists h)(fresh h := xs), fresh := Suc (fresh h)\<rparr>)"

definition new_row :: "char list \<Rightarrow> heap \<Rightarrow> addr \<times> heap" where
  "new_row cs h = (fresh h, h\<lparr>rows := (rows h)(fresh h := cs), fresh := Suc (fresh h)\<rparr>)"

text \<open>
  Python list indexing \<^verbatim>\<open>xs[i]\<close> on a list of length \<open>n\<close>: an index in
  \<open>[-n, -1]\<close> counts from the end, an index outside \<open>[-n, n-1]\<close> raises IndexError.
\<close>

definition py_index :: "nat \<Rightarrow> int \<Rightarrow> py_error + nat" where
  "py_index n i =
     (if 0 \<le> i \<and> i < int n then Inr (nat i)
      else if i < 0 \<and> - int n \<le> i then Inr (nat (int n + i))
      else Inl IndexError)"

text \<open>\<^verbatim>\<open>g[i][j] = c\<close> on the outer list at reference \<open>g\<close>.\<close>

definition cell_assign :: "heap \<Rightarrow> addr \<Rightarrow> int \<Rightarrow> int \<Rightarrow> char \<Rightarrow> py_error + heap" where
  "cell_assign h g i j c =
     (case py_index (length (lists h g)) i of
        Inl e \<Rightarrow> Inl e
      | Inr i' \<Rightarrow>
          (let a = lists h g ! i' in
           case py_index (length (rows h a)) j of
             Inl e \<Rightarrow> Inl e
           | Inr j' \<Rightarrow> Inr (h\<lparr>rows := (rows h)(a := (rows h a)[j' := c])\<rparr>)))"

text \<open>\<^verbatim>\<open>g[i] = r\<close>: replaces a row reference in the outer list at \<open>g\<close>.\<close>

definition row_assign :: "heap \<Rightarrow> addr \<Rightarrow> int \<Rightarrow> addr \<Rightarrow> py_error + heap" where
  "row_assign h g i r =
     (case py_index (length (lists h g)) i of
        Inl e \<Rightarrow> Inl e
      | Inr i' \<Rightarrow> Inr (h\<lparr>lists := (lists h)(g := (lists h g)[i' := r])\<rparr>))"

text \<open>The list of lists that the reference \<open>g\<close> denotes in the store \<open>h\<close>.\<close>

definition deref :: "heap \<Rightarrow> addr \<Rightarrow> char list list" where
  "deref h g = map (rows h) (lists h g)"

section \<open>The model: TTTModelScale\<close>

type_synonym observer = nat

record model =
  size_m :: int
  active_player :: string
  flag_end :: bool
  flag_draw :: bool
  observers :: "observer list"
  field :: addr

definition player_0 :: string where
  "player_0 = ''Zero Player''"

definition player_X :: string where
  "player_X = ''Cross Player''"

text \<open>\<^verbatim>\<open>__init__\<close>: size 3, the cross player active, both flags clear, no observers,
  an empty field list.\<close>

definition init :: "heap \<Rightarrow> model \<times> heap" where
  "init h =
     (let (g, h') = new_list [] h in
      (\<lparr>size_m = 3, active_player = player_X, flag_end = False, flag_draw = False,
        observers = [], field = g\<rparr>, h'))"

definition registerObserver :: "model \<Rightarrow> observer \<Rightarrow> model" where
  "registerObserver m ob = m\<lparr>observers := observers m @ [ob]\<rparr>"

text \<open>\<^verbatim>\<open>notifyObserver\<close> calls \<^verbatim>\<open>updateCurrentSituation\<close> on every registered observer in
  registration order. The model returns the observers called, in call order; what a
  callback does is the observer's code. In \<^verbatim>\<open>startPlay\<close> and \<^verbatim>\<open>nextStep\<close> the
  notification is the last statement, so the state returned with it is the state the
  observers are called on.\<close>

definition notifyObserver :: "model \<Rightarrow> observer list" where
  "notifyObserver m = observers m"

definition set_size :: "model \<Rightarrow> int \<Rightarrow> model" where
  "set_size m n = m\<lparr>size_m := n\<rparr>"

text \<open>\<^verbatim>\<open>[list(buffer) for y in range(0, self.size)]\<close>: one new row object per
  iteration, each a copy of the buffer's current content.\<close>

fun copy_rows :: "nat \<Rightarrow> addr \<Rightarrow> heap \<Rightarrow> addr list \<times> heap" where
  "copy_rows 0 buf h = ([], h)"
| "copy_rows (Suc k) buf h =
     (let (a, h1) = new_row (rows h buf) h;
          (as, h2) = copy_rows k buf h1
      in (a # as, h2))"

definition startPlay :: "model \<Rightarrow> heap \<Rightarrow> model \<times> heap \<times> observer list" where
  "startPlay m h =
     (let (buf, h1) = new_row (replicate (nat (size_m m)) CHR '' '') h;
          (as, h2) = copy_rows (nat (size_m m)) buf h1;
          (g, h3) = new_list as h2;
          m' = m\<lparr>field := g\<rparr>
      in (m', h3, notifyObserver m'))"

text \<open>\<^verbatim>\<open>getData\<close>: \<^verbatim>\<open>copy.copy\<close> of an int, a bool or a str is the value itself;
  \<^verbatim>\<open>copy.copy\<close> of the field is a new outer list holding the same row references.\<close>

type_synonym snapshot = "int \<times> bool \<times> bool \<times> string \<times> addr"

definition getData :: "model \<Rightarrow> heap \<Rightarrow> snapshot \<times> heap" where
  "getData m h =
     (let (g, h') = new_list (lists h (field m)) h in
      ((size_m m, flag_end m, flag_draw m, active_player m, g), h'))"

subsection \<open>isFullField\<close>

fun full_line :: "char list \<Rightarrow> bool" where
  "full_line [] = True"
| "full_line (c # cs) = (if c = CHR '' '' then False else full_line cs)"

fun isFullField :: "char list list \<Rightarrow> bool" where
  "isFullField [] = True"
| "isFullField (l # ls) = (if full_line l then isFullField ls else False)"

subsection \<open>checkWinner\<close>

text \<open>The counters \<^verbatim>\<open>count_X\<close>, \<^verbatim>\<open>count_0\<close> as a pair; \<open>tally\<close> is the
  \<^verbatim>\<open>if == "X" ... elif == "0"\<close> on one cell.\<close>

type_synonym counts = "int \<times> int"

definition tally :: "char \<Rightarrow> counts \<Rightarrow> counts" where
  "tally c k =
     (if c = CHR ''X'' then (fst k + 1, snd k)
      else if c = CHR ''0'' then (fst k, snd k + 1)
      else k)"

datatype 'a flow = Raise py_error | Return bool | Fall 'a

fun scanLine :: "char list \<Rightarrow> counts \<Rightarrow> counts" where
  "scanLine [] k = k"
| "scanLine (c # cs) k = scanLine cs (tally c k)"

text \<open>Lines 134-142: the horizontal search. The counters are reset after each row.\<close>

fun horizontal :: "int \<Rightarrow> char list list \<Rightarrow> counts \<Rightarrow> counts flow" where
  "horizontal n [] k = Fall k"
| "horizontal n (l # ls) k =
     (let k' = scanLine l k in
      if fst k' = n \<or> snd k' = n then Return True else horizontal n ls (0, 0))"

text \<open>Lines 144-152: the vertical search; \<^verbatim>\<open>line[column]\<close> raises IndexError on a
  row shorter than the column index.\<close>

fun scanColumn :: "nat \<Rightarrow> char list list \<Rightarrow> counts \<Rightarrow> py_error + counts" where
  "scanColumn c [] k = Inr k"
| "scanColumn c (l # ls) k =
     (if c < length l then scanColumn c ls (tally (l ! c) k) else Inl IndexError)"

fun vertical :: "int \<Rightarrow> char list list \<Rightarrow> nat list \<Rightarrow> counts \<Rightarrow> counts flow" where
  "vertical n f [] k = Fall k"
| "vertical n f (c # cs) k =
     (case scanColumn c f k of
        Inl e \<Rightarrow> Raise e
      | Inr k' \<Rightarrow> if fst k' = n \<or> snd k' = n then Return True else vertical n f cs (0, 0))"

text \<open>Lines 154-165: one pass over all cells for both diagonals, with the counters
  \<^verbatim>\<open>count_X\<close>, \<^verbatim>\<open>count_0\<close> for the main diagonal and the \<^verbatim>\<open>_diagonal_rev\<close> pair for
  the other; nothing is reset between rows.\<close>

definition cell :: "char list list \<Rightarrow> nat \<Rightarrow> nat \<Rightarrow> py_error + char" where
  "cell f i j =
     (if i < length f then (if j < length (f ! i) then Inr (f ! i ! j) else Inl IndexError)
      else Inl IndexError)"

definition diagCell :: "int \<Rightarrow> char list list \<Rightarrow> nat \<Rightarrow> nat \<Rightarrow> counts \<times> counts
    \<Rightarrow> py_error + counts \<times> counts" where
  "diagCell n f i j kk =
     (case (if i = j then (case cell f i j of Inl e \<Rightarrow> Inl e | Inr c \<Rightarrow> Inr (tally c (fst kk)))
            else Inr (fst kk)) of
        Inl e \<Rightarrow> Inl e
      | Inr k \<Rightarrow>
          (if int i = n - 1 - int j
           then (case cell f i j of Inl e \<Rightarrow> Inl e | Inr c \<Rightarrow> Inr (k, tally c (snd kk)))
           else Inr (k, snd kk)))"

fun diagColumns :: "int \<Rightarrow> char list list \<Rightarrow> nat \<Rightarrow> nat list \<Rightarrow> counts \<times> counts
    \<Rightarrow> py_error + counts \<times> counts" where
  "diagColumns n f i [] kk = Inr kk"
| "diagColumns n f i (j # js) kk =
     (case diagCell n f i j kk of Inl e \<Rightarrow> Inl e | Inr kk' \<Rightarrow> diagColumns n f i js kk')"

fun diagonals :: "int \<Rightarrow> char list list \<Rightarrow> nat list \<Rightarrow> counts \<times> counts
    \<Rightarrow> py_error + counts \<times> counts" where
  "diagonals n f [] kk = Inr kk"
| "diagonals n f (i # is) kk =
     (case diagColumns n f i [0..<nat n] kk of
        Inl e \<Rightarrow> Inl e
      | Inr kk' \<Rightarrow> diagonals n f is kk')"

definition checkWinner :: "int \<Rightarrow> char list list \<Rightarrow> py_error + bool" where
  "checkWinner n f =
     (case horizontal n f (0, 0) of
        Raise e \<Rightarrow> Inl e
      | Return b \<Rightarrow> Inr b
      | Fall k \<Rightarrow>
          (case vertical n f [0..<nat n] k of
             Raise e \<Rightarrow> Inl e
           | Return b \<Rightarrow> Inr b
           | Fall k' \<Rightarrow>
               (case diagonals n f [0..<nat n] (k', (0, 0)) of
                  Inl e \<Rightarrow> Inl e
                | Inr kk \<Rightarrow>
                    Inr (n = fst (fst kk) \<or> n = snd (fst kk) \<or> n = fst (snd kk) \<or> n = snd (snd kk)))))"

subsection \<open>nextStep and setCell\<close>

text \<open>\<^verbatim>\<open>nextStep\<close> reads the field through the store. When \<^verbatim>\<open>checkWinner\<close> raises, no
  attribute has been assigned yet.\<close>

definition nextStep :: "model \<Rightarrow> heap \<Rightarrow> py_error + model \<times> observer list" where
  "nextStep m h =
     (case checkWinner (size_m m) (deref h (field m)) of
        Inl e \<Rightarrow> Inl e
      | Inr w \<Rightarrow>
          (let m1 = m\<lparr>flag_end := w\<rparr>;
               m3 = (if \<not> flag_end m1
                     then (let m2 = m1\<lparr>flag_draw := isFullField (deref h (field m1))\<rparr> in
                           if \<not> flag_draw m2
                           then (if active_player m2 = player_X
                                 then m2\<lparr>active_player := player_0\<rparr>
                                 else m2\<lparr>active_player := player_X\<rparr>)
                           else m2)
                     else m1)
           in Inr (m3, notifyObserver m3)))"

text \<open>The symbol \<^verbatim>\<open>setCell\<close> writes: \<^verbatim>\<open>"X"\<close> when the active player is the cross
  player, \<^verbatim>\<open>"0"\<close> otherwise.\<close>

definition mark :: "model \<Rightarrow> char" where
  "mark m = (if active_player m = player_X then CHR ''X'' else CHR ''0'')"

text \<open>\<^verbatim>\<open>setCell\<close>: the assignment \<^verbatim>\<open>self.__field[x][y] = ...\<close>, then \<^verbatim>\<open>nextStep\<close>. An
  error comes with the store as it is when the error is raised: an IndexError of the
  assignment leaves the store as it was, an error of \<^verbatim>\<open>nextStep\<close> comes after the cell
  was written.\<close>

definition setCell :: "model \<Rightarrow> heap \<Rightarrow> int \<Rightarrow> int
    \<Rightarrow> py_error \<times> heap + model \<times> heap \<times> observer list" where
  "setCell m h x y =
     (case cell_assign h (field m) x y (mark m) of
        Inl e \<Rightarrow> Inl (e, h)
      | Inr h' \<Rightarrow>
          (case nextStep m h' of
             Inl e \<Rightarrow> Inl (e, h')
           | Inr (m', tr) \<Rightarrow> Inr (m', h', tr)))"

section \<open>The view: TTTView.updateCurrentSituation\<close>

text \<open>A \<open>char\<close> is a code point below 256, and the lines the user types are strings of
  such code points. \<open>is_space\<close> is what \<^verbatim>\<open>str.strip()\<close> and \<^verbatim>\<open>int()\<close> take for whitespace
  among them: the ASCII whitespace, the separators 0x1C to 0x1F, NEL (0x85) and the
  no-break space (0xA0).\<close>

definition is_space :: "char \<Rightarrow> bool" where
  "is_space c = (c \<in> set [CHR 0x09, CHR 0x0A, CHR 0x0B, CHR 0x0C, CHR 0x0D,
                              CHR 0x1C, CHR 0x1D, CHR 0x1E, CHR 0x1F, CHR '' '',
                              CHR 0x85, CHR 0xA0])"

definition strip :: "string \<Rightarrow> string" where
  "strip s = rev (dropWhile is_space (rev (dropWhile is_space s)))"

text \<open>\<^verbatim>\<open>line.replace("  ", " ")\<close>: left to right, occurrences that do not overlap.\<close>

fun replace2 :: "string \<Rightarrow> string" where
  "replace2 (a # b # cs) =
     (if a = CHR '' '' \<and> b = CHR '' '' then CHR '' '' # replace2 cs else a # replace2 (b # cs))"
| "replace2 cs = cs"

text \<open>Lines 314-318: replace until nothing changes.\<close>

function squeeze :: "string \<Rightarrow> string" where
  "squeeze line = (let line_next = replace2 line in
                   if line_next \<noteq> line then squeeze line_next else line_next)"
  by pat_completeness auto
termination
proof (relation "measure length")
  show "wf (measure length)" by simp
next
  fix line line_next :: string
  assume a: "line_next = replace2 line" "line_next \<noteq> line"
  have "\<And>l. length (replace2 l) \<le> length l \<and> (length (replace2 l) = length l \<longrightarrow> replace2 l = l)"
  proof -
    fix l show "length (replace2 l) \<le> length l \<and> (length (replace2 l) = length l \<longrightarrow> replace2 l = l)"
      by (induction l rule: replace2.induct) auto
  qed
  then have "length (replace2 line) < length line"
    using a by (metis le_neq_implies_less)
  then show "(line_next, line) \<in> measure length" using a by simp
qed

text \<open>\<^verbatim>\<open>line.split(" ")\<close>: the pieces between single spaces.\<close>

fun split_sp :: "string \<Rightarrow> string list" where
  "split_sp [] = [[]]"
| "split_sp (c # cs) =
     (if c = CHR '' '' then [] # split_sp cs
      else (case split_sp cs of [] \<Rightarrow> [[c]] | t # ts \<Rightarrow> (c # t) # ts))"

text \<open>\<^verbatim>\<open>int(s)\<close>: whitespace around, an optional sign, decimal digits with single
  underscores between digits; ValueError otherwise. Below code point 256 the decimal
  digits are \<^verbatim>\<open>0\<close> to \<^verbatim>\<open>9\<close>. CPython (3.11 and later, with its default
  \<^verbatim>\<open>int_max_str_digits\<close>) also raises ValueError when the string has more than 4300
  digits.\<close>

definition is_digit :: "char \<Rightarrow> bool" where
  "is_digit c = (c \<in> set ''0123456789'')"

fun digits_ok :: "string \<Rightarrow> bool" where
  "digits_ok [] = False"
| "digits_ok [c] = is_digit c"
| "digits_ok (c # d # cs) =
     (is_digit c \<and> (if d = CHR ''_'' then digits_ok cs else digits_ok (d # cs)))"

fun decimal :: "nat \<Rightarrow> string \<Rightarrow> nat" where
  "decimal acc [] = acc"
| "decimal acc (c # cs) =
     (if c = CHR ''_'' then decimal acc cs
      else decimal (10 * acc + (of_char c - of_char CHR ''0'')) cs)"

definition int_max_str_digits :: nat where
  "int_max_str_digits = 4300"

definition py_int :: "string \<Rightarrow> py_error + int" where
  "py_int s =
     (case strip s of
        [] \<Rightarrow> Inl ValueError
      | c # cs \<Rightarrow>
          (let body = (if c = CHR ''-'' \<or> c = CHR ''+'' then cs else c # cs) in
           if digits_ok body \<and> length (filter is_digit body) \<le> int_max_str_digits
           then Inr (if c = CHR ''-'' then - int (decimal 0 body) else int (decimal 0 body))
           else Inl ValueError))"

text \<open>\<^verbatim>\<open>field[i][j]\<close> with Python indexing on both levels.\<close>

definition py_cell :: "char list list \<Rightarrow> int \<Rightarrow> int \<Rightarrow> py_error + char" where
  "py_cell f i j =
     (case py_index (length f) i of
        Inl e \<Rightarrow> Inl e
      | Inr i' \<Rightarrow>
          (case py_index (length (f ! i')) j of
             Inl e \<Rightarrow> Inl e
           | Inr j' \<Rightarrow> Inr (f ! i' ! j')))"

text \<open>One pass through the body of the \<^verbatim>\<open>while True\<close> loop (lines 303-338) on one line
  of input: a warning and another pass, or \<^verbatim>\<open>break\<close> with the two numbers. A ValueError
  is caught and printed; an IndexError is not caught.\<close>

datatype warning = MustEnter | OnlyTwo | TooGreat | MustBeEmpty | Printed py_error

datatype answer = Again warning | Break int int

definition checkCoords :: "int \<Rightarrow> char list list \<Rightarrow> int \<Rightarrow> int \<Rightarrow> py_error + answer" where
  "checkCoords sz fld x y =
     (if x > sz \<or> y > sz then Inr (Again TooGreat)
      else (case py_cell fld (x - 1) (y - 1) of
              Inl e \<Rightarrow> Inl e
            | Inr c \<Rightarrow> if c \<noteq> CHR '' '' then Inr (Again MustBeEmpty) else Inr (Break x y)))"

definition checkLine :: "int \<Rightarrow> char list list \<Rightarrow> string \<Rightarrow> py_error + answer" where
  "checkLine sz fld line =
     (if line = [] then Inr (Again MustEnter)
      else (let l = squeeze (strip line) in
            if count_list l CHR '' '' > 1 then Inr (Again OnlyTwo)
            else (case split_sp l of
                    [a, b] \<Rightarrow>
                      (case py_int a of
                         Inl e \<Rightarrow> Inr (Again (Printed e))
                       | Inr x \<Rightarrow>
                           (case py_int b of
                              Inl e \<Rightarrow> Inr (Again (Printed e))
                            | Inr y \<Rightarrow> checkCoords sz fld x y))
                  | _ \<Rightarrow> Inr (Again (Printed ValueError)))))"

text \<open>The loop over the lines the user types; \<^verbatim>\<open>input\<close> raises EOFError when there is
  no line left.\<close>

fun askMove :: "int \<Rightarrow> char list list \<Rightarrow> string list \<Rightarrow> py_error + (int \<times> int) \<times> string list" where
  "askMove sz fld [] = Inl EOFError"
| "askMove sz fld (l # ls) =
     (case checkLine sz fld l of
        Inl e \<Rightarrow> Inl e
      | Inr (Again w) \<Rightarrow> askMove sz fld ls
      | Inr (Break x y) \<Rightarrow> Inr ((x, y), ls))"

text \<open>What \<^verbatim>\<open>updateCurrentSituation\<close> does with the data it reads: the winner's message
  when \<^verbatim>\<open>flag_end\<close> is set, else the draw's message when \<^verbatim>\<open>flag_draw\<close> is set, else the
  prompt and the call \<^verbatim>\<open>controller.setCell(x-1, y-1)\<close>, which the controller passes on to
  the model's \<^verbatim>\<open>setCell\<close>. The function returns that action, the lines of input left
  and the store; what is printed on the console is left out.\<close>

datatype situation = Winner string | Draw | Unresolved

definition situation :: "bool \<Rightarrow> bool \<Rightarrow> string \<Rightarrow> situation" where
  "situation fe fd ap = (if fe then Winner ap else if fd then Draw else Unresolved)"

datatype action = Announce situation | CallSetCell int int

definition updateCurrentSituation :: "model \<Rightarrow> heap \<Rightarrow> string list
    \<Rightarrow> py_error + action \<times> string list \<times> heap" where
  "updateCurrentSituation m h inp =
     (case getData m h of
        ((sz, fe, fd, ap, g), h') \<Rightarrow>
          (case situation fe fd ap of
             Unresolved \<Rightarrow>
               (case askMove sz (deref h' g) inp of
                  Inl e \<Rightarrow> Inl e
                | Inr ((x, y), rest) \<Rightarrow> Inr (CallSetCell (x - 1) (y - 1), rest, h'))
           | s \<Rightarrow> Inr (Announce s, inp, h')))"

section \<open>Games\<close>

text \<open>A game as \<^verbatim>\<open>main\<close> and the controller start it: the model is constructed, the
  observers register, the size is set and \<^verbatim>\<open>startPlay\<close> is called. Then a sequence of
  \<^verbatim>\<open>setCell\<close> calls, which stops at the first error.\<close>

definition new_game :: "int \<Rightarrow> observer list \<Rightarrow> heap \<Rightarrow> model \<times> heap" where
  "new_game n obs h =
     (let (m0, h0) = init h;
          m1 = foldl registerObserver m0 obs;
          (m2, h2, tr) = startPlay (set_size m1 n) h0
      in (m2, h2))"

fun play :: "model \<times> heap \<Rightarrow> (int \<times> int) list \<Rightarrow> py_error \<times> heap + model \<times> heap" where
  "play s [] = Inr s"
| "play s (xy # ms) =
     (case setCell (fst s) (snd s) (fst xy) (snd xy) of
        Inl e \<Rightarrow> Inl e
      | Inr (m', h', tr) \<Rightarrow> play (m', h') ms)"

text \<open>The caller's contract of \<^verbatim>\<open>setCell\<close>: every call of the sequence aims at a cell
  that holds \<^verbatim>\<open>" "\<close> when the call is made (what the view checks with
  \<^verbatim>\<open>field[x-1][y-1] != " "\<close>).\<close>

fun on_empty :: "model \<times> heap \<Rightarrow> (int \<times> int) list \<Rightarrow> bool" where
  "on_empty s [] = True"
| "on_empty s (xy # ms) =
     (py_cell (deref (snd s) (field (fst s))) (fst xy) (snd xy) = Inr CHR '' '' \<and>
      (case setCell (fst s) (snd s) (fst xy) (snd xy) of
         Inl e \<Rightarrow> True
       | Inr (m', h', tr) \<Rightarrow> on_empty (m', h') ms))"

definition empty_heap :: heap where
  "empty_heap = \<lparr>lists = (\<lambda>a. []), rows = (\<lambda>a. []), fresh = 0\<rparr>"

text \<open>What a sequence of calls ends with: the error raised, or the two flags, the active
  player and the grid.\<close>

definition outcome :: "py_error \<times> heap + model \<times> heap
    \<Rightarrow> py_error + bool \<times> bool \<times> string \<times> char list list" where
  "outcome r =
     (case r of
        Inl (e, h) \<Rightarrow> Inl e
      | Inr (m, h) \<Rightarrow> Inr (flag_end m, flag_draw m, active_player m, deref h (field m)))"

text \<open>The controller's \<^verbatim>\<open>startWithNoStandartSize\<close> once the view has returned the size:
  \<^verbatim>\<open>self.__model.size = new_size\<close>, then \<^verbatim>\<open>self.__model.startPlay()\<close>.\<close>

definition startWithSize :: "int \<Rightarrow> model \<Rightarrow> heap \<Rightarrow> model \<times> heap \<times> observer list" where
  "startWithSize n m h = startPlay (set_size m n) h"

text \<open>\<^verbatim>\<open>startPlay\<close> called again, with the size set, on the state a sequence of calls has
  reached.\<close>

definition restart :: "int \<Rightarrow> py_error \<times> heap + model \<times> heap \<Rightarrow> py_error \<times> heap + model \<times> heap" where
  "restart n r =
     (case r of
        Inl e \<Rightarrow> Inl e
      | Inr (m, h) \<Rightarrow> (case startWithSize n m h of (m', h', tr) \<Rightarrow> Inr (m', h')))"

text \<open>More \<^verbatim>\<open>setCell\<close> calls on the state a sequence of calls has reached.\<close>

definition play_on :: "py_error \<times> heap + model \<times> heap \<Rightarrow> (int \<times> int) list
    \<Rightarrow> py_error \<times> heap + model \<times> heap" where
  "play_on r ms = (case r of Inl e \<Rightarrow> Inl e | Inr s \<Rightarrow> play s ms)"

text \<open>An observer that changes what \<^verbatim>\<open>getData\<close> gave it: \<^verbatim>\<open>field[i][j] = c\<close> on the
  returned field, or \<^verbatim>\<open>field[i] = list(cs)\<close>. The result is the model's own grid
  afterwards.\<close>

definition observer_writes_cell :: "model \<times> heap \<Rightarrow> int \<Rightarrow> int \<Rightarrow> char
    \<Rightarrow> py_error + char list list" where
  "observer_writes_cell s i j c =
     (case getData (fst s) (snd s) of
        ((sz, fe, fd, ap, g), h1) \<Rightarrow>
          (case cell_assign h1 g i j c of
             Inl e \<Rightarrow> Inl e
           | Inr h2 \<Rightarrow> Inr (deref h2 (field (fst s)))))"

definition observer_writes_row :: "model \<times> heap \<Rightarrow> int \<Rightarrow> char list
    \<Rightarrow> py_error + char list list" where
  "observer_writes_row s i cs =
     (case getData (fst s) (snd s) of
        ((sz, fe, fd, ap, g), h1) \<Rightarrow>
          (case new_row cs h1 of
             (a, h2) \<Rightarrow>
               (case row_assign h2 g i a of
                  Inl e \<Rightarrow> Inl e
                | Inr h3 \<Rightarrow> Inr (deref h3 (field (fst s))))))"

section \<open>The specification's notions\<close>

text \<open>A grid of side \<open>N\<close>: \<open>N\<close> rows of \<open>N\<close> cells.\<close>

definition square :: "nat \<Rightarrow> char list list \<Rightarrow> bool" where
  "square N f = (length f = N \<and> list_all (\<lambda>r. length r = N) f)"

text \<open>The marker \<open>c\<close> holds a whole line of the grid: some row, some column, the main
  diagonal (row = col) or the anti-diagonal (row = N - 1 - col), each checked on its
  own.\<close>

definition line_of :: "nat \<Rightarrow> char list list \<Rightarrow> char \<Rightarrow> bool" where
  "line_of N f c =
     (list_ex (\<lambda>i. list_all (\<lambda>j. f ! i ! j = c) [0..<N]) [0..<N]
      \<or> list_ex (\<lambda>j. list_all (\<lambda>i. f ! i ! j = c) [0..<N]) [0..<N]
      \<or> list_all (\<lambda>i. f ! i ! i = c) [0..<N]
      \<or> list_all (\<lambda>i. f ! i ! (N - 1 - i) = c) [0..<N])"

text \<open>Every cell of a sequence of cells holds \<open>c\<close>; a solid sequence holds one marker
  throughout.\<close>

definition all_are :: "char \<Rightarrow> char list \<Rightarrow> bool" where
  "all_are c l = list_all (\<lambda>x. x = c) l"

definition solid :: "char list \<Rightarrow> bool" where
  "solid l = (all_are CHR ''X'' l \<or> all_are CHR ''0'' l)"

definition spec_won :: "nat \<Rightarrow> char list list \<Rightarrow> bool" where
  "spec_won N f = (line_of N f CHR ''X'' \<or> line_of N f CHR ''0'')"

definition spec_full :: "char list list \<Rightarrow> bool" where
  "spec_full f = list_all (\<lambda>r. list_all (\<lambda>c. c \<noteq> CHR '' '') r) f"

text \<open>The state of a model whose field is a grid of side \<open>N\<close> made of \<open>N\<close> different
  row objects, as \<^verbatim>\<open>startPlay\<close> builds it.\<close>

definition well_formed :: "nat \<Rightarrow> model \<Rightarrow> heap \<Rightarrow> bool" where
  "well_formed N m h =
     (size_m m = int N \<and> distinct (lists h (field m)) \<and> square N (deref h (field m)))"

text \<open>The value a snapshot denotes in a store.\<close>

definition snapshot_value :: "heap \<Rightarrow> snapshot \<Rightarrow> int \<times> bool \<times> bool \<times> string \<times> char list list" where
  "snapshot_value h s =
     (case s of (sz, fe, fd, ap, g) \<Rightarrow> (sz, fe, fd, ap, deref h g))"

text \<open>\<^verbatim>\<open>getData\<close> called \<open>k\<close> times in a row; each returned value as it reads when it is
  returned.\<close>

fun getData_times :: "nat \<Rightarrow> model \<Rightarrow> heap
    \<Rightarrow> (int \<times> bool \<times> bool \<times> string \<times> char list list) list \<times> heap" where
  "getData_times 0 m h = ([], h)"
| "getData_times (Suc k) m h =
     (case getData m h of
        (s, h1) \<Rightarrow>
          (case getData_times k m h1 of
             (vs, h2) \<Rightarrow> (snapshot_value h1 s # vs, h2)))"

text \<open>The position that the Python index \<open>i\<close> denotes in a list of length \<open>n\<close>, for
  \<open>i\<close> in \<open>[-n, n-1]\<close>.\<close>

definition py_pos :: "nat \<Rightarrow> int \<Rightarrow> nat" where
  "py_pos n i = (if i < 0 then nat (int n + i) else nat i)"

text \<open>What holds of a game between two calls of \<^verbatim>\<open>setCell\<close>: the field is a grid of
  side \<open>N\<close>, \<^verbatim>\<open>flag_end\<close> says whether the grid has a whole line, a whole line is
  there for the symbol of the active player when \<^verbatim>\<open>flag_end\<close> is set, and the grid is full
  when \<^verbatim>\<open>flag_draw\<close> is set.\<close>

definition game_inv :: "nat \<Rightarrow> model \<Rightarrow> heap \<Rightarrow> bool" where
  "game_inv N m h =
     (well_formed N m h \<and>
      flag_end m = spec_won N (deref h (field m)) \<and>
      (if flag_end m then line_of N (deref h (field m)) (mark m) else True) \<and>
      (if flag_draw m then spec_full (deref h (field m)) else True))"

text \<open>The grid with the cell in row \<open>i\<close>, column \<open>j\<close> replaced.\<close>

definition put :: "char list list \<Rightarrow> nat \<Rightarrow> nat \<Rightarrow> char \<Rightarrow> char list list" where
  "put f i j c = f[i := (f ! i)[j := c]]"

section \<open>The win detection\<close>

lemma scanLine_counts:
  "scanLine l k = (fst k + int (length (filter (\<lambda>c. c = CHR ''X'') l)),
                   snd k + int (length (filter (\<lambda>c. c = CHR ''0'') l)))"
  by (induction l arbitrary: k) (auto simp: tally_def)

lemma filter_all_iff: "length (filter P l) = length l \<longleftrightarrow> (\<forall>x\<in>set l. P x)"
  by (metis filter_id_conv length_filter_less less_irrefl)

lemma scanLine_solid:
  "length l = N \<Longrightarrow>
   (fst (scanLine l (0, 0)) = int N \<or> snd (scanLine l (0, 0)) = int N) = solid l"
proof -
  assume len: "length l = N"
  have x: "(fst (scanLine l (0, 0)) = int (length l)) = all_are CHR ''X'' l"
    by (simp add: scanLine_counts filter_all_iff all_are_def list_all_iff)
  have z: "(snd (scanLine l (0, 0)) = int (length l)) = all_are CHR ''0'' l"
    by (simp add: scanLine_counts filter_all_iff all_are_def list_all_iff)
  show ?thesis
    unfolding solid_def x[symmetric] z[symmetric] len by (rule refl)
qed

lemma horizontal_eq:
  "\<forall>r\<in>set f. length r = N \<Longrightarrow>
   horizontal (int N) f (0, 0) = (if \<exists>r\<in>set f. solid r then Return True else Fall (0, 0))"
  by (induction f) (auto simp: Let_def scanLine_solid)

lemma scanColumn_eq:
  "\<forall>r\<in>set f. c < length r \<Longrightarrow> scanColumn c f k = Inr (scanLine (map (\<lambda>r. r ! c) f) k)"
  by (induction f arbitrary: k) auto

lemma vertical_eq:
  "length f = N \<Longrightarrow> \<forall>r\<in>set f. length r = N \<Longrightarrow> \<forall>c\<in>set cs. c < N \<Longrightarrow>
   vertical (int N) f cs (0, 0) =
     (if \<exists>c\<in>set cs. solid (map (\<lambda>r. r ! c) f) then Return True else Fall (0, 0))"
proof (induction cs)
  case Nil
  then show ?case by simp
next
  case (Cons c cs)
  have c: "\<forall>r\<in>set f. c < length r" using Cons.prems by simp
  have len: "length (map (\<lambda>r. r ! c) f) = N" using Cons.prems by simp
  show ?case
    using Cons scanLine_solid[OF len] by (simp add: scanColumn_eq[OF c])
qed

lemma diagCell_eq:
  assumes "length f = N" "\<forall>r\<in>set f. length r = N" "i < N" "j < N"
  shows "diagCell (int N) f i j kk =
     Inr (if j = i then tally (f ! i ! i) (fst kk) else fst kk,
          if j = N - 1 - i then tally (f ! i ! (N - 1 - i)) (snd kk) else snd kk)"
proof -
  have lr: "length (f ! i) = N" using assms by simp
  have rev: "(int i = int N - 1 - int j) = (j = N - 1 - i)"
    using assms by auto
  show ?thesis
    unfolding diagCell_def rev using assms by (auto simp: cell_def lr)
qed

lemma diagColumns_eq:
  "length f = N \<Longrightarrow> \<forall>r\<in>set f. length r = N \<Longrightarrow> i < N \<Longrightarrow> distinct js \<Longrightarrow>
   \<forall>j\<in>set js. j < N \<Longrightarrow>
   diagColumns (int N) f i js kk =
     Inr (if i \<in> set js then tally (f ! i ! i) (fst kk) else fst kk,
          if N - 1 - i \<in> set js then tally (f ! i ! (N - 1 - i)) (snd kk) else snd kk)"
proof (induction js arbitrary: kk)
  case Nil
  then show ?case by simp
next
  case (Cons j js)
  have j: "j < N" and d: "distinct js" "j \<notin> set js" and b: "\<forall>j\<in>set js. j < N"
    using Cons.prems by simp_all
  note step = diagCell_eq[OF Cons.prems(1,2,3) j]
  note ih = Cons.IH[OF Cons.prems(1,2,3) d(1) b]
  show ?case
    using d(2) by (auto simp: step ih)
qed

lemma diagonals_eq:
  "length f = N \<Longrightarrow> \<forall>r\<in>set f. length r = N \<Longrightarrow> \<forall>i\<in>set is. i < N \<Longrightarrow>
   diagonals (int N) f is kk =
     Inr (scanLine (map (\<lambda>i. f ! i ! i) is) (fst kk),
          scanLine (map (\<lambda>i. f ! i ! (N - 1 - i)) is) (snd kk))"
proof (induction "is" arbitrary: kk)
  case Nil
  then show ?case by simp
next
  case (Cons i "is")
  have i: "i < N" using Cons.prems by simp
  have rv: "N - 1 - i < N" using i by simp
  have "diagColumns (int N) f i [0..<N] kk =
     Inr (tally (f ! i ! i) (fst kk), tally (f ! i ! (N - 1 - i)) (snd kk))"
    using diagColumns_eq[OF Cons.prems(1,2) i, of "[0..<N]" kk] i rv by simp
  then show ?case using Cons by simp
qed

text \<open>On a grid of side \<open>N\<close>, \<^verbatim>\<open>checkWinner\<close> never raises, and it returns True exactly
  when a row, a column or one of the two diagonals is solid.\<close>

lemma checkWinner_lines:
  assumes "length f = N" "\<forall>r\<in>set f. length r = N"
  shows "checkWinner (int N) f =
     Inr ((\<exists>r\<in>set f. solid r) \<or> (\<exists>c\<in>set [0..<N]. solid (map (\<lambda>r. r ! c) f))
          \<or> solid (map (\<lambda>i. f ! i ! i) [0..<N])
          \<or> solid (map (\<lambda>i. f ! i ! (N - 1 - i)) [0..<N]))"
proof -
  have v: "vertical (int N) f [0..<N] (0, 0) =
     (if \<exists>c\<in>set [0..<N]. solid (map (\<lambda>r. r ! c) f) then Return True else Fall (0, 0))"
    using vertical_eq[OF assms, of "[0..<N]"] by simp
  have d: "diagonals (int N) f [0..<N] ((0, 0), (0, 0)) =
     Inr (scanLine (map (\<lambda>i. f ! i ! i) [0..<N]) (0, 0),
          scanLine (map (\<lambda>i. f ! i ! (N - 1 - i)) [0..<N]) (0, 0))"
    using diagonals_eq[OF assms, of "[0..<N]" "((0, 0), (0, 0))"] by simp
  have m: "(int N = fst (scanLine (map (\<lambda>i. f ! i ! i) [0..<N]) (0, 0))
          \<or> int N = snd (scanLine (map (\<lambda>i. f ! i ! i) [0..<N]) (0, 0)))
         = solid (map (\<lambda>i. f ! i ! i) [0..<N])"
    using scanLine_solid[of "map (\<lambda>i. f ! i ! i) [0..<N]" N]
    by (simp add: eq_commute[of "int N"])
  have r: "(int N = fst (scanLine (map (\<lambda>i. f ! i ! (N - 1 - i)) [0..<N]) (0, 0))
          \<or> int N = snd (scanLine (map (\<lambda>i. f ! i ! (N - 1 - i)) [0..<N]) (0, 0)))
         = solid (map (\<lambda>i. f ! i ! (N - 1 - i)) [0..<N])"
    using scanLine_solid[of "map (\<lambda>i. f ! i ! (N - 1 - i)) [0..<N]" N]
    by (simp add: eq_commute[of "int N"])
  note h = horizontal_eq[OF assms(2)]
  show ?thesis
  proof (cases "\<exists>r\<in>set f. solid r")
    case True
    then show ?thesis by (simp add: checkWinner_def h)
  next
    case nrow: False
    show ?thesis
    proof (cases "\<exists>c\<in>set [0..<N]. solid (map (\<lambda>r. r ! c) f)")
      case True
      then show ?thesis using nrow by (simp add: checkWinner_def h v)
    next
      case ncol: False
      have "checkWinner (int N) f =
          Inr (solid (map (\<lambda>i. f ! i ! i) [0..<N]) \<or> solid (map (\<lambda>i. f ! i ! (N - 1 - i)) [0..<N]))"
        unfolding m[symmetric] r[symmetric]
        using nrow ncol by (simp add: checkWinner_def h v d disj_assoc)
      then show ?thesis using nrow ncol by simp
    qed
  qed
qed

lemma all_are_nth:
  "length l = N \<Longrightarrow> all_are c l = (\<forall>j<N. l ! j = c)"
  by (auto simp: all_are_def list_all_iff all_set_conv_all_nth)

lemma line_of_iff:
  "line_of N f c =
     ((\<exists>i<N. \<forall>j<N. f ! i ! j = c) \<or> (\<exists>j<N. \<forall>i<N. f ! i ! j = c)
      \<or> (\<forall>i<N. f ! i ! i = c) \<or> (\<forall>i<N. f ! i ! (N - 1 - i) = c))"
  unfolding line_of_def list_ex_iff list_all_iff set_upt
  by (simp add: Bex_def Ball_def)

lemma line_of_all_are:
  assumes "length f = N" "\<forall>r\<in>set f. length r = N"
  shows "line_of N f c =
     ((\<exists>r\<in>set f. all_are c r) \<or> (\<exists>j\<in>set [0..<N]. all_are c (map (\<lambda>r. r ! j) f))
      \<or> all_are c (map (\<lambda>i. f ! i ! i) [0..<N])
      \<or> all_are c (map (\<lambda>i. f ! i ! (N - 1 - i)) [0..<N]))"
proof -
  have rows: "(\<exists>r\<in>set f. all_are c r) = (\<exists>i<N. \<forall>j<N. f ! i ! j = c)"
  proof -
    have "(\<exists>r\<in>set f. all_are c r) = (\<exists>i<N. all_are c (f ! i))"
      using assms(1) by (metis in_set_conv_nth)
    also have "\<dots> = (\<exists>i<N. \<forall>j<N. f ! i ! j = c)"
      using assms by (auto simp: all_are_nth[of _ N])
    finally show ?thesis .
  qed
  have cols: "(\<exists>j\<in>set [0..<N]. all_are c (map (\<lambda>r. r ! j) f)) = (\<exists>j<N. \<forall>i<N. f ! i ! j = c)"
    using assms(1) by (simp add: all_are_nth[of _ N] Bex_def)
  have dg: "\<And>g. all_are c (map g [0..<N]) = (\<forall>i<N. g i = c)"
    by (simp add: all_are_nth[of _ N])
  show ?thesis
    unfolding line_of_iff rows cols dg by (rule refl)
qed

lemma checkWinner_spec_won:
  assumes "square N f"
  shows "checkWinner (int N) f = Inr (spec_won N f)"
proof -
  have a: "length f = N" "\<forall>r\<in>set f. length r = N"
    using assms by (simp_all add: square_def list_all_iff)
  have "((\<exists>r\<in>set f. solid r) \<or> (\<exists>c\<in>set [0..<N]. solid (map (\<lambda>r. r ! c) f))
          \<or> solid (map (\<lambda>i. f ! i ! i) [0..<N])
          \<or> solid (map (\<lambda>i. f ! i ! (N - 1 - i)) [0..<N])) = spec_won N f"
    unfolding spec_won_def line_of_all_are[OF a] solid_def by blast
  then show ?thesis
    by (simp only: checkWinner_lines[OF a])
qed


section \<open>The store and the grid\<close>

lemma py_index_pos:
  "- int n \<le> i \<Longrightarrow> i < int n \<Longrightarrow> py_index n i = Inr (py_pos n i) \<and> py_pos n i < n"
  by (auto simp: py_index_def py_pos_def)

lemma py_index_Inr: "py_index n i = Inr k \<Longrightarrow> - int n \<le> i \<and> i < int n \<and> k = py_pos n i"
  by (auto simp: py_index_def py_pos_def split: if_splits)

lemma map_fun_upd_nth:
  "distinct as \<Longrightarrow> i < length as \<Longrightarrow> map (f(as ! i := v)) as = (map f as)[i := v]"
  by (auto simp: list_eq_iff_nth_eq nth_list_update nth_eq_iff_index_eq)

lemma square_length: "square N f \<Longrightarrow> length f = N"
  by (simp add: square_def)

lemma square_row: "square N f \<Longrightarrow> i < N \<Longrightarrow> length (f ! i) = N"
  by (simp add: square_def list_all_length)

lemma square_put: "square N f \<Longrightarrow> square N (put f i j c)"
  by (cases "i < length f") (auto simp: square_def put_def list_all_length nth_list_update)

lemma put_nth:
  "square N f \<Longrightarrow> i < N \<Longrightarrow> j < N \<Longrightarrow> i' < N \<Longrightarrow> j' < N \<Longrightarrow>
   put f i j c ! i' ! j' = (if i' = i \<and> j' = j then c else f ! i' ! j')"
  by (auto simp: put_def nth_list_update square_def list_all_length)

lemma cell_assign_grid:
  assumes wf: "well_formed N m h" and i: "i < N" and j: "j < N"
    and x: "py_index N x = Inr i" and y: "py_index N y = Inr j"
  shows "cell_assign h (field m) x y c =
           Inr (h\<lparr>rows := (rows h)(lists h (field m) ! i := (rows h (lists h (field m) ! i))[j := c])\<rparr>)"
    and "deref (h\<lparr>rows := (rows h)(lists h (field m) ! i := (rows h (lists h (field m) ! i))[j := c])\<rparr>) (field m)
           = put (deref h (field m)) i j c"
proof -
  have len: "length (lists h (field m)) = N" and d: "distinct (lists h (field m))"
    and sq: "square N (deref h (field m))"
    using wf by (simp_all add: well_formed_def square_def deref_def)
  have lr: "length (rows h (lists h (field m) ! i)) = N"
    using square_row[OF sq i] i len by (simp add: deref_def)
  show "cell_assign h (field m) x y c =
           Inr (h\<lparr>rows := (rows h)(lists h (field m) ! i := (rows h (lists h (field m) ! i))[j := c])\<rparr>)"
    by (simp add: cell_assign_def Let_def len x lr y)
  show "deref (h\<lparr>rows := (rows h)(lists h (field m) ! i := (rows h (lists h (field m) ! i))[j := c])\<rparr>) (field m)
           = put (deref h (field m)) i j c"
    using i len by (simp add: deref_def put_def map_fun_upd_nth[OF d])
qed

lemma cell_assign_Inr:
  assumes wf: "well_formed N m h" and ok: "cell_assign h (field m) x y c = Inr h'"
  shows "py_index N x = Inr (py_pos N x) \<and> py_index N y = Inr (py_pos N y)
         \<and> py_pos N x < N \<and> py_pos N y < N"
proof -
  have len: "length (lists h (field m)) = N" and sq: "square N (deref h (field m))"
    using wf by (simp_all add: well_formed_def square_def deref_def)
  obtain i where x: "py_index N x = Inr i"
    using ok by (auto simp: cell_assign_def len split: sum.splits)
  have i: "i < N" "i = py_pos N x"
    using py_index_Inr[OF x] py_index_pos[of N x] by auto
  have lr: "length (rows h (lists h (field m) ! i)) = N"
    using square_row[OF sq i(1)] i len by (simp add: deref_def)
  obtain j where y: "py_index N y = Inr j"
    using ok by (auto simp: cell_assign_def len x lr Let_def split: sum.splits)
  have j: "j < N" "j = py_pos N y"
    using py_index_Inr[OF y] py_index_pos[of N y] by auto
  show ?thesis using x y i j by simp
qed

section \<open>The effect of setCell\<close>

lemma isFullField_spec: "isFullField f = spec_full f"
proof -
  have "\<And>l. full_line l = list_all (\<lambda>c. c \<noteq> CHR '' '') l"
  proof -
    fix l show "full_line l = list_all (\<lambda>c. c \<noteq> CHR '' '') l" by (induction l) auto
  qed
  then show ?thesis by (induction f) (auto simp: spec_full_def)
qed

text \<open>The model after a successful \<^verbatim>\<open>nextStep\<close> on a grid \<open>g\<close> of side \<open>N\<close>.\<close>

lemma nextStep_square:
  assumes "size_m m = int N" "square N (deref h (field m))"
  shows "nextStep m h =
     Inr (m\<lparr>flag_end := spec_won N (deref h (field m)),
             flag_draw := (if spec_won N (deref h (field m)) then flag_draw m
                           else spec_full (deref h (field m))),
             active_player :=
               (if spec_won N (deref h (field m)) \<or> spec_full (deref h (field m))
                then active_player m
                else if active_player m = player_X then player_0 else player_X)\<rparr>,
          observers m)"
  by (simp add: nextStep_def assms(1) checkWinner_spec_won[OF assms(2)] isFullField_spec
      notifyObserver_def)

lemma setCell_square:
  assumes wf: "well_formed N m h" and x: "- int N \<le> x" "x < int N" and y: "- int N \<le> y" "y < int N"
  shows "\<exists>h'. setCell m h x y =
     Inr (m\<lparr>flag_end := spec_won N (put (deref h (field m)) (py_pos N x) (py_pos N y) (mark m)),
             flag_draw := (if spec_won N (put (deref h (field m)) (py_pos N x) (py_pos N y) (mark m))
                           then flag_draw m
                           else spec_full (put (deref h (field m)) (py_pos N x) (py_pos N y) (mark m))),
             active_player :=
               (if spec_won N (put (deref h (field m)) (py_pos N x) (py_pos N y) (mark m))
                   \<or> spec_full (put (deref h (field m)) (py_pos N x) (py_pos N y) (mark m))
                then active_player m
                else if active_player m = player_X then player_0 else player_X)\<rparr>,
          h', observers m)
     \<and> deref h' (field m) = put (deref h (field m)) (py_pos N x) (py_pos N y) (mark m)
     \<and> lists h' = lists h \<and> fresh h' = fresh h"
proof -
  let ?i = "py_pos N x" and ?j = "py_pos N y"
  let ?h = "h\<lparr>rows := (rows h)(lists h (field m) ! ?i := (rows h (lists h (field m) ! ?i))[?j := mark m])\<rparr>"
  note px = py_index_pos[OF x] and py = py_index_pos[OF y]
  have ca: "cell_assign h (field m) x y (mark m) = Inr ?h"
    and dr: "deref ?h (field m) = put (deref h (field m)) ?i ?j (mark m)"
    using cell_assign_grid[OF wf _ _ _ _, of ?i ?j x y "mark m"] px py by simp_all
  have sq: "square N (deref ?h (field m))"
    unfolding dr using wf by (simp add: well_formed_def square_put)
  have sz: "size_m m = int N" using wf by (simp add: well_formed_def)
  show ?thesis
    apply (rule exI[of _ ?h])
    unfolding setCell_def ca
    using nextStep_square[OF sz sq] by (simp add: dr)
qed

section \<open>Lines and full grids under a placement\<close>

lemma mark_cases: "mark m = CHR ''X'' \<or> mark m = CHR ''0''"
  by (simp add: mark_def)

lemma mark_not_blank: "mark m \<noteq> CHR '' ''"
  by (simp add: mark_def)

lemma anti_less: "i < N \<Longrightarrow> N - 1 - i < (N::nat)"
  by simp

lemma line_cellwise:
  assumes "\<And>a b. a < N \<Longrightarrow> b < N \<Longrightarrow> f ! a ! b = c \<Longrightarrow> g ! a ! b = c" and "line_of N f c"
  shows "line_of N g c"
proof -
  from assms(2) consider
      (row) i where "i < N" "\<forall>j<N. f ! i ! j = c"
    | (col) j where "j < N" "\<forall>i<N. f ! i ! j = c"
    | (main) "\<forall>i<N. f ! i ! i = c"
    | (anti) "\<forall>i<N. f ! i ! (N - 1 - i) = c"
    unfolding line_of_iff by blast
  then show ?thesis
  proof cases
    case row
    then have "\<forall>j<N. g ! i ! j = c" using assms(1) by blast
    then show ?thesis unfolding line_of_iff using row(1) by blast
  next
    case col
    then have "\<forall>i<N. g ! i ! j = c" using assms(1) by blast
    then show ?thesis unfolding line_of_iff using col(1) by blast
  next
    case main
    then have "\<forall>i<N. g ! i ! i = c" using assms(1) by blast
    then show ?thesis unfolding line_of_iff by blast
  next
    case anti
    then have "\<forall>i<N. g ! i ! (N - 1 - i) = c" using assms(1) anti_less by blast
    then show ?thesis unfolding line_of_iff by blast
  qed
qed

lemma line_put_same:
  assumes sq: "square N f" and i: "i < N" and j: "j < N" and l: "line_of N f c"
  shows "line_of N (put f i j c) c"
proof (rule line_cellwise[OF _ l])
  fix a b assume "a < N" "b < N" "f ! a ! b = c"
  then show "put f i j c ! a ! b = c" by (simp add: put_nth[OF sq i j])
qed

lemma line_put_other:
  assumes sq: "square N f" and i: "i < N" and j: "j < N" and ne: "c' \<noteq> c"
    and l: "line_of N (put f i j c) c'"
  shows "line_of N f c'"
proof (rule line_cellwise[OF _ l])
  fix a b assume "a < N" "b < N" "put f i j c ! a ! b = c'"
  then show "f ! a ! b = c'"
    using ne by (auto simp: put_nth[OF sq i j] split: if_splits)
qed

lemma spec_full_put:
  assumes "spec_full f" "c \<noteq> CHR '' ''"
  shows "spec_full (put f i j c)"
proof -
  have "\<forall>n<length (put f i j c). \<forall>k<length (put f i j c ! n). put f i j c ! n ! k \<noteq> CHR '' ''"
  proof (intro allI impI)
    fix n k
    assume n: "n < length (put f i j c)" and k: "k < length (put f i j c ! n)"
    have old: "\<And>k'. k' < length (f ! n) \<Longrightarrow> f ! n ! k' \<noteq> CHR '' ''"
      using assms(1) n by (simp add: spec_full_def list_all_length put_def)
    show "put f i j c ! n ! k \<noteq> CHR '' ''"
    proof (cases "n = i")
      case True
      then have "put f i j c ! n = (f ! n)[j := c]"
        using n by (simp add: put_def)
      then show ?thesis
        using old[of k] k assms(2) by (cases "k = j") simp_all
    next
      case False
      then have "put f i j c ! n = f ! n"
        by (simp add: put_def)
      then show ?thesis using old[of k] k by simp
    qed
  qed
  then show ?thesis by (simp add: spec_full_def list_all_length)
qed

lemma spec_full_nth:
  "spec_full f \<Longrightarrow> square N f \<Longrightarrow> i < N \<Longrightarrow> j < N \<Longrightarrow> f ! i ! j \<noteq> CHR '' ''"
  by (simp add: spec_full_def square_def list_all_length)

lemma py_cell_square:
  assumes "square N f" "- int N \<le> x" "x < int N" "- int N \<le> y" "y < int N"
  shows "py_cell f x y = Inr (f ! py_pos N x ! py_pos N y)"
  using py_index_pos[OF assms(2,3)] py_index_pos[OF assms(4,5)] assms(1)
  by (simp add: py_cell_def square_length square_row)

section \<open>startPlay\<close>

lemma copy_rows_spec:
  "copy_rows k buf h = (as, h') \<Longrightarrow> buf < fresh h \<Longrightarrow>
   length as = k \<and> (\<forall>i<k. as ! i = fresh h + i) \<and> fresh h' = fresh h + k
   \<and> lists h' = lists h
   \<and> (\<forall>a<fresh h. rows h' a = rows h a) \<and> (\<forall>i<k. rows h' (fresh h + i) = rows h buf)"
proof (induction k arbitrary: h as h')
  case 0
  then show ?case by simp
next
  case (Suc k)
  let ?h1 = "h\<lparr>rows := (rows h)(fresh h := rows h buf), fresh := Suc (fresh h)\<rparr>"
  obtain as2 h2 where r: "copy_rows k buf ?h1 = (as2, h2)"
    by (cases "copy_rows k buf ?h1") auto
  have eq: "as = fresh h # as2" "h' = h2"
    using Suc.prems(1) r by (simp_all add: new_row_def)
  have b: "buf < fresh ?h1" using Suc.prems(2) by simp
  note ih = Suc.IH[OF r b]
  have len: "length as2 = k" and f2: "fresh h2 = fresh h + Suc k" and l2: "lists h2 = lists h"
    using ih by simp_all
  have nth2: "\<And>i. i < k \<Longrightarrow> as2 ! i = Suc (fresh h + i)" using ih by simp
  have old: "\<And>a. a < Suc (fresh h) \<Longrightarrow> rows h2 a = rows ?h1 a" using ih by simp
  have new: "\<And>i. i < k \<Longrightarrow> rows h2 (Suc (fresh h + i)) = rows h buf"
    using ih Suc.prems(2) by simp
  have a: "\<forall>i<Suc k. (fresh h # as2) ! i = fresh h + i"
  proof (intro allI impI)
    fix i assume "i < Suc k"
    then show "(fresh h # as2) ! i = fresh h + i"
      using nth2 by (cases i) simp_all
  qed
  have c: "\<forall>a<fresh h. rows h2 a = rows h a"
  proof (intro allI impI)
    fix a assume "a < fresh h"
    then show "rows h2 a = rows h a" using old[of a] by simp
  qed
  have d: "\<forall>i<Suc k. rows h2 (fresh h + i) = rows h buf"
  proof (intro allI impI)
    fix i assume i: "i < Suc k"
    show "rows h2 (fresh h + i) = rows h buf"
    proof (cases i)
      case 0
      then show ?thesis using old[of "fresh h"] by simp
    next
      case (Suc i')
      then show ?thesis using new[of i'] i by simp
    qed
  qed
  show ?case
    unfolding eq using len f2 l2 a c d by simp
qed

lemma startPlay_unfold:
  fixes m :: model and h :: heap
  defines "h1 \<equiv> h\<lparr>rows := (rows h)(fresh h := replicate (nat (size_m m)) CHR '' ''),
                    fresh := Suc (fresh h)\<rparr>"
  defines "r \<equiv> copy_rows (nat (size_m m)) (fresh h) h1"
  shows "startPlay m h =
     (m\<lparr>field := fresh (snd r)\<rparr>,
      (snd r)\<lparr>lists := (lists (snd r))(fresh (snd r) := fst r), fresh := Suc (fresh (snd r))\<rparr>,
      observers m)"
  unfolding r_def h1_def startPlay_def new_row_def new_list_def notifyObserver_def Let_def split_def
  by simp

lemma startPlay_spec:
  assumes "startPlay m h = (m', h', tr)"
  shows "m' = m\<lparr>field := field m'\<rparr> \<and> tr = observers m
         \<and> deref h' (field m') = replicate (nat (size_m m)) (replicate (nat (size_m m)) CHR '' '')
         \<and> distinct (lists h' (field m')) \<and> field m' < fresh h'"
proof -
  let ?N = "nat (size_m m)"
  let ?h1 = "h\<lparr>rows := (rows h)(fresh h := replicate ?N CHR '' ''), fresh := Suc (fresh h)\<rparr>"
  obtain as h2 where r: "copy_rows ?N (fresh h) ?h1 = (as, h2)"
    by (cases "copy_rows ?N (fresh h) ?h1") auto
  have b: "fresh h < fresh ?h1" by simp
  note c = copy_rows_spec[OF r b]
  have "(m', h', tr) = (m\<lparr>field := fresh h2\<rparr>,
            h2\<lparr>lists := (lists h2)(fresh h2 := as), fresh := Suc (fresh h2)\<rparr>, observers m)"
    unfolding assms[symmetric] startPlay_unfold r by simp
  then have res: "m' = m\<lparr>field := fresh h2\<rparr>" "tr = observers m"
            "h' = h2\<lparr>lists := (lists h2)(fresh h2 := as), fresh := Suc (fresh h2)\<rparr>"
    by simp_all
  have len: "length as = ?N" and nth: "\<And>i. i < ?N \<Longrightarrow> as ! i = Suc (fresh h + i)"
    using c by simp_all
  have rows: "\<And>i. i < ?N \<Longrightarrow> rows h2 (as ! i) = replicate ?N CHR '' ''"
    using c nth by simp
  have "map (rows h2) as = replicate ?N (replicate ?N CHR '' '')"
    using rows len by (simp add: list_eq_iff_nth_eq)
  moreover have "distinct as"
    using len nth by (simp add: distinct_conv_nth)
  ultimately show ?thesis
    unfolding res by (simp add: deref_def)
qed

lemma blank_square: "square N (replicate N (replicate N CHR '' ''))"
  by (simp add: square_def list_all_length)

lemma blank_line: "0 < N \<Longrightarrow> c \<noteq> CHR '' '' \<Longrightarrow> \<not> line_of N (replicate N (replicate N CHR '' '')) c"
proof -
  assume N: "0 < N" and c: "c \<noteq> CHR '' ''"
  have z: "N - 1 - 0 < N" using N by simp
  have cellwise: "\<And>a b. a < N \<Longrightarrow> b < N \<Longrightarrow> replicate N (replicate N CHR '' '') ! a ! b \<noteq> c"
    using c by simp
  show ?thesis
    unfolding line_of_iff using cellwise N z by (metis anti_less)
qed

lemma blank_not_won: "0 < N \<Longrightarrow> \<not> spec_won N (replicate N (replicate N CHR '' ''))"
  by (simp add: spec_won_def blank_line)

lemma foldl_register:
  "foldl registerObserver m obs = m\<lparr>observers := observers m @ obs\<rparr>"
  by (induction obs arbitrary: m) (simp_all add: registerObserver_def)

lemma new_game_spec:
  assumes "new_game (int N) obs h = (m, h')"
  shows "size_m m = int N \<and> active_player m = player_X \<and> \<not> flag_end m \<and> \<not> flag_draw m
         \<and> observers m = obs
         \<and> deref h' (field m) = replicate N (replicate N CHR '' '')
         \<and> distinct (lists h' (field m)) \<and> field m < fresh h'"
proof -
  let ?h0 = "h\<lparr>lists := (lists h)(fresh h := []), fresh := Suc (fresh h)\<rparr>"
  let ?m1 = "\<lparr>size_m = int N, active_player = player_X, flag_end = False, flag_draw = False,
              observers = obs, field = fresh h\<rparr>"
  obtain m2 h2 tr where sp: "startPlay ?m1 ?h0 = (m2, h2, tr)"
    by (cases "startPlay ?m1 ?h0") auto
  have "new_game (int N) obs h = (m2, h2)"
    using sp by (simp add: new_game_def init_def new_list_def foldl_register set_size_def)
  then have eq: "m = m2" "h' = h2" using assms by simp_all
  note s = startPlay_spec[OF sp]
  have m2: "m2 = ?m1\<lparr>field := field m2\<rparr>" using s by blast
  have f: "size_m m2 = int N" "active_player m2 = player_X" "\<not> flag_end m2" "\<not> flag_draw m2"
          "observers m2 = obs"
    by (subst m2, simp)+
  show ?thesis
    unfolding eq using s f by simp
qed

lemma new_game_inv:
  assumes "0 < N" "new_game (int N) obs h = (m, h')"
  shows "game_inv N m h'"
  using new_game_spec[OF assms(2)] assms(1)
  by (simp add: game_inv_def well_formed_def blank_square blank_not_won)

section \<open>A successful setCell\<close>

lemma setCell_Inr:
  assumes wf: "well_formed N m h" and ok: "setCell m h x y = Inr (m', h', tr)"
  shows "- int N \<le> x \<and> x < int N \<and> - int N \<le> y \<and> y < int N
     \<and> deref h' (field m') = put (deref h (field m)) (py_pos N x) (py_pos N y) (mark m)
     \<and> flag_end m' = spec_won N (deref h' (field m'))
     \<and> flag_draw m' = (if spec_won N (deref h' (field m')) then flag_draw m
                        else spec_full (deref h' (field m')))
     \<and> active_player m' =
          (if spec_won N (deref h' (field m')) \<or> spec_full (deref h' (field m'))
           then active_player m
           else if active_player m = player_X then player_0 else player_X)
     \<and> size_m m' = size_m m \<and> observers m' = observers m \<and> field m' = field m
     \<and> lists h' = lists h \<and> fresh h' = fresh h \<and> tr = observers m
     \<and> well_formed N m' h'"
proof -
  obtain h1 where ca: "cell_assign h (field m) x y (mark m) = Inr h1"
    using ok by (auto simp: setCell_def split: sum.splits)
  note b = cell_assign_Inr[OF wf ca]
  have x: "- int N \<le> x" "x < int N" and y: "- int N \<le> y" "y < int N"
    using b py_index_Inr by blast+
  let ?g = "put (deref h (field m)) (py_pos N x) (py_pos N y) (mark m)"
  obtain h2 where s: "setCell m h x y =
     Inr (m\<lparr>flag_end := spec_won N ?g,
             flag_draw := (if spec_won N ?g then flag_draw m else spec_full ?g),
             active_player :=
               (if spec_won N ?g \<or> spec_full ?g then active_player m
                else if active_player m = player_X then player_0 else player_X)\<rparr>,
          h2, observers m)"
    and d: "deref h2 (field m) = ?g" and l: "lists h2 = lists h" and f: "fresh h2 = fresh h"
    using setCell_square[OF wf x y] by blast
  have m': "m' = m\<lparr>flag_end := spec_won N ?g,
             flag_draw := (if spec_won N ?g then flag_draw m else spec_full ?g),
             active_player :=
               (if spec_won N ?g \<or> spec_full ?g then active_player m
                else if active_player m = player_X then player_0 else player_X)\<rparr>"
    and h': "h' = h2" and tr: "tr = observers m"
    using ok s by simp_all
  have fld: "field m' = field m" and sz: "size_m m' = size_m m" and ob: "observers m' = observers m"
    and fe: "flag_end m' = spec_won N ?g"
    and fd: "flag_draw m' = (if spec_won N ?g then flag_draw m else spec_full ?g)"
    and ap: "active_player m' = (if spec_won N ?g \<or> spec_full ?g then active_player m
                else if active_player m = player_X then player_0 else player_X)"
    by (subst m', simp)+
  have wf': "well_formed N m' h'"
    using wf unfolding well_formed_def fld sz h' l d by (simp add: square_put)
  show ?thesis
    unfolding fld h' d using x y fe fd ap sz ob l f tr wf' fld h' by simp
qed

lemma setCell_inv:
  assumes inv: "game_inv N m h" and ok: "setCell m h x y = Inr (m', h', tr)"
  shows "game_inv N m' h'"
    and "flag_end m \<Longrightarrow> flag_end m'"
    and "flag_draw m \<Longrightarrow> flag_draw m'"
    and "py_cell (deref h (field m)) x y = Inr CHR '' '' \<Longrightarrow> \<not> (flag_end m \<and> flag_draw m)
         \<Longrightarrow> \<not> (flag_end m' \<and> flag_draw m')"
proof -
  have wf: "well_formed N m h" using inv by (simp add: game_inv_def)
  note r = setCell_Inr[OF wf ok]
  let ?f = "deref h (field m)" and ?i = "py_pos N x" and ?j = "py_pos N y"
  let ?g = "put ?f ?i ?j (mark m)"
  have sq: "square N ?f" using wf by (simp add: well_formed_def)
  have x: "- int N \<le> x" "x < int N" and y: "- int N \<le> y" "y < int N" using r by blast+
  have i: "?i < N" and j: "?j < N"
    using py_index_pos[OF x] py_index_pos[OF y] by simp_all
  have g: "deref h' (field m') = ?g" using r by blast
  have fe: "flag_end m' = spec_won N ?g" unfolding g[symmetric] using r by blast
  have fd: "flag_draw m' = (if spec_won N ?g then flag_draw m else spec_full ?g)"
    unfolding g[symmetric] using r by blast
  have "active_player m' =
          (if spec_won N ?g \<or> spec_full ?g then active_player m
           else if active_player m = player_X then player_0 else player_X)"
    unfolding g[symmetric] using r by blast
  then have ap: "spec_won N ?g \<Longrightarrow> active_player m' = active_player m" by simp
  have wf': "well_formed N m' h'" using r by blast
  have keep: "line_of N ?f (mark m) \<Longrightarrow> line_of N ?g (mark m)"
    using line_put_same[OF sq i j] .
  have line: "spec_won N ?g \<Longrightarrow> line_of N ?g (mark m)"
  proof -
    assume w: "spec_won N ?g"
    show "line_of N ?g (mark m)"
    proof (cases "line_of N ?g (mark m)")
      case True
      then show ?thesis .
    next
      case False
      have "line_of N ?g CHR ''X'' \<or> line_of N ?g CHR ''0''"
        using w by (simp add: spec_won_def)
      then obtain c where c: "c = CHR ''X'' \<or> c = CHR ''0''" "line_of N ?g c"
        by blast
      have ne: "c \<noteq> mark m" using c(2) False by blast
      have old: "line_of N ?f c" using line_put_other[OF sq i j ne c(2)] .
      have "c = CHR ''X'' \<or> c = CHR ''0''" using c(1) .
      then have "spec_won N ?f" using old by (auto simp: spec_won_def)
      then have "line_of N ?f (mark m)" using inv by (simp add: game_inv_def split: if_splits)
      then show ?thesis using keep by simp
    qed
  qed
  have full: "spec_full ?f \<Longrightarrow> spec_full ?g"
    using spec_full_put[OF _ mark_not_blank] by simp
  show e: "flag_end m \<Longrightarrow> flag_end m'"
  proof -
    assume "flag_end m"
    then have "line_of N ?f (mark m)" using inv by (simp add: game_inv_def)
    then have "line_of N ?g (mark m)" using keep by simp
    then show "flag_end m'" using fe mark_cases[of m] by (auto simp: spec_won_def)
  qed
  show dr: "flag_draw m \<Longrightarrow> flag_draw m'"
  proof -
    assume a: "flag_draw m"
    then have "spec_full ?g" using inv full by (simp add: game_inv_def)
    then show "flag_draw m'" using fd a by simp
  qed
  show "game_inv N m' h'"
  proof -
    have "mark m' = mark m" if "flag_end m'"
      using that fe ap by (simp add: mark_def)
    then have 1: "if flag_end m' then line_of N ?g (mark m') else True"
      using line fe by simp
    have 2: "if flag_draw m' then spec_full ?g else True"
      using fd inv full by (auto simp: game_inv_def split: if_splits)
    show ?thesis
      unfolding game_inv_def g using wf' 1 2 fe by simp
  qed
  show "\<not> (flag_end m' \<and> flag_draw m')"
    if t: "py_cell ?f x y = Inr CHR '' ''" and ex: "\<not> (flag_end m \<and> flag_draw m)"
  proof -
    have "?f ! ?i ! ?j = CHR '' ''"
      using t py_cell_square[OF sq x y] by simp
    then have "\<not> spec_full ?f" using spec_full_nth[OF _ sq i j] by blast
    then have "\<not> flag_draw m" using inv by (auto simp: game_inv_def split: if_splits)
    then show ?thesis using fe fd by auto
  qed
qed

section \<open>Sequences of calls\<close>

lemma play_snoc:
  "play s (ms @ [xy]) = (case play s ms of Inl e \<Rightarrow> Inl e | Inr s' \<Rightarrow> play s' [xy])"
  by (induction ms arbitrary: s) (auto split: sum.splits)

lemma on_empty_snoc:
  "on_empty s (ms @ [xy]) =
     (on_empty s ms \<and> (case play s ms of Inl e \<Rightarrow> True | Inr s' \<Rightarrow> on_empty s' [xy]))"
  by (induction ms arbitrary: s) (auto split: sum.splits)

lemma play_inv:
  "game_inv N (fst s) (snd s) \<Longrightarrow> play s ms = Inr s' \<Longrightarrow> game_inv N (fst s') (snd s')"
proof (induction ms arbitrary: s)
  case Nil
  then show ?case by simp
next
  case (Cons xy ms)
  obtain m1 h1 tr where st: "setCell (fst s) (snd s) (fst xy) (snd xy) = Inr (m1, h1, tr)"
    using Cons.prems(2) by (auto split: sum.splits)
  have "game_inv N m1 h1" using setCell_inv(1)[OF Cons.prems(1) st] .
  moreover have "play (m1, h1) ms = Inr s'" using Cons.prems(2) st by simp
  ultimately show ?case using Cons.IH[of "(m1, h1)"] by simp
qed

lemma play_exclusive:
  "game_inv N (fst s) (snd s) \<Longrightarrow> \<not> (flag_end (fst s) \<and> flag_draw (fst s)) \<Longrightarrow>
   on_empty s ms \<Longrightarrow> play s ms = Inr s' \<Longrightarrow> \<not> (flag_end (fst s') \<and> flag_draw (fst s'))"
proof (induction ms arbitrary: s)
  case Nil
  then show ?case by simp
next
  case (Cons xy ms)
  obtain m1 h1 tr where st: "setCell (fst s) (snd s) (fst xy) (snd xy) = Inr (m1, h1, tr)"
    using Cons.prems(4) by (auto split: sum.splits)
  have t: "py_cell (deref (snd s) (field (fst s))) (fst xy) (snd xy) = Inr CHR '' ''"
    and rest: "on_empty (m1, h1) ms"
    using Cons.prems(3) st by simp_all
  have i: "game_inv N m1 h1" using setCell_inv(1)[OF Cons.prems(1) st] .
  have e: "\<not> (flag_end m1 \<and> flag_draw m1)"
    using setCell_inv(4)[OF Cons.prems(1) st t Cons.prems(2)] .
  have p: "play (m1, h1) ms = Inr s'" using Cons.prems(4) st by simp
  show ?case using Cons.IH[of "(m1, h1)"] i e rest p by simp
qed

section \<open>Games, snapshots and the view\<close>

lemma outcome_Inr:
  "outcome r = Inr v \<Longrightarrow>
   \<exists>m h. r = Inr (m, h) \<and> v = (flag_end m, flag_draw m, active_player m, deref h (field m))"
  by (auto simp: outcome_def split: sum.splits prod.splits)

lemma players_differ: "player_0 \<noteq> player_X"
  by (simp add: player_0_def player_X_def)

lemma play_last:
  assumes "play s (ms @ [(x, y)]) = Inr (m', h')"
  shows "\<exists>m h tr. play s ms = Inr (m, h) \<and> setCell m h x y = Inr (m', h', tr)"
proof -
  obtain m h where p: "play s ms = Inr (m, h)"
    using assms by (cases "play s ms") (auto simp: play_snoc)
  then have "play (m, h) [(x, y)] = Inr (m', h')"
    using assms by (simp add: play_snoc)
  then obtain tr where "setCell m h x y = Inr (m', h', tr)"
    by (auto split: sum.splits)
  then show ?thesis using p by blast
qed

lemma play_step:
  "play s ms = Inr (m, h) \<Longrightarrow> setCell m h x y = Inr (m', h', tr) \<Longrightarrow>
   play s (ms @ [(x, y)]) = Inr (m', h')"
  by (simp add: play_snoc)

lemma play_wf:
  "well_formed N (fst s) (snd s) \<Longrightarrow> play s ms = Inr s' \<Longrightarrow> well_formed N (fst s') (snd s')"
proof (induction ms arbitrary: s)
  case Nil
  then show ?case by simp
next
  case (Cons xy ms)
  obtain m1 h1 tr where st: "setCell (fst s) (snd s) (fst xy) (snd xy) = Inr (m1, h1, tr)"
    using Cons.prems(2) by (auto split: sum.splits)
  have "well_formed N m1 h1" using setCell_Inr[OF Cons.prems(1) st] by blast
  moreover have "play (m1, h1) ms = Inr s'" using Cons.prems(2) st by simp
  ultimately show ?case using Cons.IH[of "(m1, h1)"] by simp
qed

lemma new_game_wf:
  "well_formed N (fst (new_game (int N) obs h)) (snd (new_game (int N) obs h))"
  using new_game_spec[of N obs h "fst (new_game (int N) obs h)" "snd (new_game (int N) obs h)"]
  by (simp add: well_formed_def blank_square)

lemma restart_outcome:
  assumes "outcome r = Inr (fe, fd, ap, g)"
  shows "outcome (restart (int N) r) = Inr (fe, fd, ap, replicate N (replicate N CHR '' ''))"
proof -
  obtain m h where r: "r = Inr (m, h)"
    and v: "(fe, fd, ap, g) = (flag_end m, flag_draw m, active_player m, deref h (field m))"
    using outcome_Inr[OF assms] by blast
  obtain m' h' tr where sp: "startPlay (set_size m (int N)) h = (m', h', tr)"
    by (cases "startPlay (set_size m (int N)) h") auto
  note a = startPlay_spec[OF sp]
  have m': "m' = (set_size m (int N))\<lparr>field := field m'\<rparr>" using a by blast
  have f: "active_player m' = active_player m" "flag_end m' = flag_end m" "flag_draw m' = flag_draw m"
    by (subst m', simp add: set_size_def)+
  have g: "deref h' (field m') = replicate N (replicate N CHR '' '')"
    using a by (simp add: set_size_def)
  show ?thesis
    using v f g by (simp add: r restart_def startWithSize_def sp outcome_def)
qed

lemma checkCoords_Break:
  "checkCoords sz fld x y = Inr (Break x' y') \<Longrightarrow>
   x' = x \<and> y' = y \<and> x \<le> sz \<and> y \<le> sz \<and> py_cell fld (x - 1) (y - 1) = Inr CHR '' ''"
  by (auto simp: checkCoords_def split: if_splits sum.splits)

lemma checkLine_Break:
  assumes "checkLine sz fld line = Inr (Break x y)"
  shows "x \<le> sz \<and> y \<le> sz \<and> py_cell fld (x - 1) (y - 1) = Inr CHR '' ''"
proof -
  obtain x0 y0 where "checkCoords sz fld x0 y0 = Inr (Break x y)"
    using assms unfolding checkLine_def Let_def
    by (simp split: if_splits list.splits sum.splits)
  then show ?thesis using checkCoords_Break by blast
qed

text \<open>The outer list of a snapshot is a new object: replacing one of its rows leaves the
  model's grid as it was.\<close>

lemma snapshot_outer_list_is_new:
  assumes "field m < fresh h" "\<forall>a\<in>set (lists h (field m)). a < fresh h"
    and "observer_writes_row (m, h) i cs = Inr g"
  shows "g = deref h (field m)"
proof -
  let ?h1 = "h\<lparr>lists := (lists h)(fresh h := lists h (field m)), fresh := Suc (fresh h)\<rparr>"
  let ?h2 = "?h1\<lparr>rows := (rows ?h1)(fresh ?h1 := cs), fresh := Suc (fresh ?h1)\<rparr>"
  have gd: "getData m h = ((size_m m, flag_end m, flag_draw m, active_player m, fresh h), ?h1)"
    by (simp add: getData_def new_list_def)
  obtain h3 where ra: "row_assign ?h2 (fresh h) i (fresh ?h1) = Inr h3" and g: "g = deref h3 (field m)"
    using assms(3) by (auto simp: observer_writes_row_def gd new_row_def split: sum.splits)
  obtain i' where h3: "h3 = ?h2\<lparr>lists := (lists ?h2)(fresh h := (lists ?h2 (fresh h))[i' := fresh ?h1])\<rparr>"
    using ra by (auto simp: row_assign_def split: sum.splits)
  have l: "lists h3 (field m) = lists h (field m)"
    using assms(1) by (simp add: h3)
  have "\<forall>a\<in>set (lists h (field m)). rows h3 a = rows h a"
    using assms(2) by (auto simp: h3)
  then show ?thesis
    unfolding g deref_def l by simp
qed

lemma startWithSize_spec:
  assumes "startWithSize (int N) m0 h0 = (m1, h1, tr0)"
  shows "well_formed N m1 h1 \<and> deref h1 (field m1) = replicate N (replicate N CHR '' '')
       \<and> active_player m1 = active_player m0 \<and> flag_end m1 = flag_end m0
       \<and> flag_draw m1 = flag_draw m0 \<and> observers m1 = observers m0 \<and> field m1 < fresh h1"
proof -
  have sp: "startPlay (set_size m0 (int N)) h0 = (m1, h1, tr0)"
    using assms by (simp add: startWithSize_def)
  note a = startPlay_spec[OF sp]
  have m1: "m1 = (set_size m0 (int N))\<lparr>field := field m1\<rparr>" using a by blast
  have f: "size_m m1 = int N" "observers m1 = observers m0" "active_player m1 = active_player m0"
          "flag_end m1 = flag_end m0" "flag_draw m1 = flag_draw m0"
    by (subst m1, simp add: set_size_def)+
  have g: "deref h1 (field m1) = replicate N (replicate N CHR '' '')"
    using a by (simp add: set_size_def)
  have d: "distinct (lists h1 (field m1))" and fr: "field m1 < fresh h1" using a by blast+
  have "well_formed N m1 h1"
    unfolding well_formed_def g using f(1) d by (simp add: blank_square)
  then show ?thesis using f g fr by simp
qed

lemma startWithSize_inv:
  assumes "startWithSize (int N) m0 h0 = (m1, h1, tr0)" "0 < N" "\<not> flag_end m0" "\<not> flag_draw m0"
  shows "game_inv N m1 h1"
  using startWithSize_spec[OF assms(1)] assms(2,3,4)
  by (simp add: game_inv_def blank_not_won)

lemma new_game_startWithSize:
  "new_game n obs h =
     (fst (startWithSize n (foldl registerObserver (fst (init h)) obs) (snd (init h))),
      fst (snd (startWithSize n (foldl registerObserver (fst (init h)) obs) (snd (init h)))))"
  by (simp add: new_game_def startWithSize_def split_def Let_def)

lemma init_flags: "\<not> flag_end (foldl registerObserver (fst (init h)) obs)
                 \<and> \<not> flag_draw (foldl registerObserver (fst (init h)) obs)"
  by (simp add: foldl_register init_def new_list_def)

lemma restart_then_setCell:
  assumes e: "outcome r = Inr (fe, fd, ap, g)"
    and x: "- int N \<le> x" "x < int N" and y: "- int N \<le> y" "y < int N"
    and g': "g' = put (replicate N (replicate N CHR '' '')) (py_pos N x) (py_pos N y)
                    (if ap = player_X then CHR ''X'' else CHR ''0'')"
  shows "outcome (play_on (restart (int N) r) [(x, y)]) =
     Inr (spec_won N g',
          (if spec_won N g' then fd else spec_full g'),
          (if spec_won N g' \<or> spec_full g' then ap
           else if ap = player_X then player_0 else player_X),
          g')"
proof -
  obtain m h where r: "r = Inr (m, h)"
    and v: "(fe, fd, ap, g) = (flag_end m, flag_draw m, active_player m, deref h (field m))"
    using outcome_Inr[OF e] by blast
  obtain m1 h1 tr0 where st: "startWithSize (int N) m h = (m1, h1, tr0)"
    by (cases "startWithSize (int N) m h") auto
  note a = startWithSize_spec[OF st]
  have wf: "well_formed N m1 h1" using a by blast
  have mk: "mark m1 = (if ap = player_X then CHR ''X'' else CHR ''0'')"
    using a v by (simp add: mark_def)
  have gr: "put (deref h1 (field m1)) (py_pos N x) (py_pos N y) (mark m1) = g'"
    unfolding g' mk using a by simp
  obtain h2 where sc: "setCell m1 h1 x y =
     Inr (m1\<lparr>flag_end := spec_won N g',
              flag_draw := (if spec_won N g' then flag_draw m1 else spec_full g'),
              active_player :=
                (if spec_won N g' \<or> spec_full g' then active_player m1
                 else if active_player m1 = player_X then player_0 else player_X)\<rparr>,
          h2, observers m1)"
    and d: "deref h2 (field m1) = g'"
    using setCell_square[OF wf x y] unfolding gr by blast
  have f: "flag_draw m1 = fd" "active_player m1 = ap" using a v by simp_all
  have "play_on (restart (int N) r) [(x, y)] =
     Inr (m1\<lparr>flag_end := spec_won N g',
              flag_draw := (if spec_won N g' then flag_draw m1 else spec_full g'),
              active_player :=
                (if spec_won N g' \<or> spec_full g' then active_player m1
                 else if active_player m1 = player_X then player_0 else player_X)\<rparr>, h2)"
    by (simp add: play_on_def restart_def r st sc)
  then show ?thesis
    by (simp add: outcome_def d f)
qed

section \<open>The claims\<close>

text \<open>
  Claim C1. On every grid of side \<open>N\<close> (so on every grid reached by placing marks),
  \<^verbatim>\<open>checkWinner\<close> returns, and it returns True exactly when some row, some column, the
  main diagonal or the anti-diagonal holds one marker in all its \<open>N\<close> cells. The single
  pass over all cells that serves both diagonals ends with the counters that a scan of
  each diagonal on its own gives.
\<close>

theorem C1_checkWinner_decides_lines:
  assumes "square N f"
  shows "checkWinner (int N) f = Inr (spec_won N f) \<and>
         diagonals (int N) f [0..<N] ((0, 0), (0, 0)) =
           Inr (scanLine (map (\<lambda>i. f ! i ! i) [0..<N]) (0, 0),
                scanLine (map (\<lambda>i. f ! i ! (N - 1 - i)) [0..<N]) (0, 0))"
proof -
  have a: "length f = N" "\<forall>r\<in>set f. length r = N"
    using assms by (simp_all add: square_def list_all_iff)
  have "diagonals (int N) f [0..<N] ((0, 0), (0, 0)) =
           Inr (scanLine (map (\<lambda>i. f ! i ! i) [0..<N]) (0, 0),
                scanLine (map (\<lambda>i. f ! i ! (N - 1 - i)) [0..<N]) (0, 0))"
    using diagonals_eq[OF a, of "[0..<N]" "((0, 0), (0, 0))"] by simp
  then show ?thesis
    using checkWinner_spec_won[OF assms] by simp
qed

theorem C1_witness:
  "square 3 [''0X '', '' X0'', ''X  ''] \<and>
   checkWinner 3 [''0X '', '' X0'', ''X  ''] = Inr False \<and>
   square 3 [''0 X'', '' X0'', ''X  ''] \<and>
   checkWinner 3 [''0 X'', '' X0'', ''X  ''] = Inr True"
proof -
  have s1: "square 3 [''0X '', '' X0'', ''X  '']" by code_simp
  have s2: "square 3 [''0 X'', '' X0'', ''X  '']" by code_simp
  have w1: "\<not> spec_won 3 [''0X '', '' X0'', ''X  '']" by code_simp
  have w2: "spec_won 3 [''0 X'', '' X0'', ''X  '']" by code_simp
  show ?thesis
    using C1_checkWinner_decides_lines[OF s1] C1_checkWinner_decides_lines[OF s2] s1 s2 w1 w2
    by simp
qed

text \<open>
  Claim C2, as amended. In a game started by \<^verbatim>\<open>startPlay\<close> on a state whose two flags
  are clear (as they are on a newly constructed model, the only state the program starts
  a game on) and continued by any sequence of successful \<^verbatim>\<open>setCell\<close> calls, a further
  successful \<^verbatim>\<open>setCell\<close> leaves \<^verbatim>\<open>flag_end\<close> (Won) set when it was set and \<^verbatim>\<open>flag_draw\<close>
  (Drawn) set when it was set. The two flags are not both set when every call of the
  sequence aimed at a cell that was empty at the time of the call.
\<close>

theorem C2_flags_persist:
  assumes st: "startWithSize (int N) m0 h0 = (m1, h1, tr0)"
    and clear: "\<not> flag_end m0" "\<not> flag_draw m0"
    and p: "play (m1, h1) ms = Inr (m, h)"
    and s: "setCell m h x y = Inr (m', h', tr)"
  shows "(if flag_end m then flag_end m' else True)
       \<and> (if flag_draw m then flag_draw m' else True)
       \<and> (if on_empty (m1, h1) (ms @ [(x, y)])
          then \<not> (flag_end m' \<and> flag_draw m') else True)"
proof (cases "N = 0")
  case True
  have "well_formed N (fst (m1, h1)) (snd (m1, h1))"
    using startWithSize_spec[OF st] by simp
  then have "well_formed N m h"
    using play_wf[OF _ p] by simp
  then have "- int N \<le> x \<and> x < int N" using setCell_Inr[OF _ s] by blast
  then have False using True by auto
  then show ?thesis ..
next
  case False
  have g: "game_inv N (fst (m1, h1)) (snd (m1, h1))"
    using startWithSize_inv[OF st _ clear] False by simp
  have z: "\<not> (flag_end (fst (m1, h1)) \<and> flag_draw (fst (m1, h1)))"
    using startWithSize_spec[OF st] clear by simp
  have i: "game_inv N m h" using play_inv[OF g p] by simp
  have p': "play (m1, h1) (ms @ [(x, y)]) = Inr (m', h')" using play_step[OF p s] .
  have "\<not> (flag_end m' \<and> flag_draw m')" if "on_empty (m1, h1) (ms @ [(x, y)])"
    using play_exclusive[OF g z that p'] by simp
  then show ?thesis
    using setCell_inv(2,3)[OF i s] by auto
qed

theorem C2_witness:
  "\<not> flag_end (fst (init empty_heap)) \<and> \<not> flag_draw (fst (init empty_heap))
   \<and> new_game 3 [] empty_heap
       = (fst (startWithSize 3 (fst (init empty_heap)) (snd (init empty_heap))),
          fst (snd (startWithSize 3 (fst (init empty_heap)) (snd (init empty_heap)))))
   \<and> outcome (play (new_game 3 [] empty_heap) [(0, 0), (1, 0), (0, 1), (1, 1), (0, 2)])
     = Inr (True, False, ''Cross Player'', [''XXX'', ''00 '', ''   ''])
   \<and> outcome (play (new_game 3 [] empty_heap) ([(0, 0), (1, 0), (0, 1), (1, 1), (0, 2)] @ [(2, 2)]))
     = Inr (True, False, ''Cross Player'', [''XXX'', ''00 '', ''  X''])
   \<and> on_empty (new_game 3 [] empty_heap) ([(0, 0), (1, 0), (0, 1), (1, 1), (0, 2)] @ [(2, 2)])"
proof -
  let ?m0 = "fst (init empty_heap)" and ?h0 = "snd (init empty_heap)"
  let ?r = "startWithSize (int 3) ?m0 ?h0"
  let ?G = "new_game 3 [] empty_heap"
  let ?ms = "[(0, 0), (1, 0), (0, 1), (1, 1), (0, 2)] :: (int \<times> int) list"
  have c: "\<not> flag_end ?m0" "\<not> flag_draw ?m0"
    using init_flags[of empty_heap "[]"] by simp_all
  have G: "?G = (fst ?r, fst (snd ?r))"
    using new_game_startWithSize[of 3 "[]" empty_heap] by simp
  have st: "?r = (fst ?r, fst (snd ?r), snd (snd ?r))" by simp
  have e1: "outcome (play ?G ?ms) = Inr (True, False, ''Cross Player'', [''XXX'', ''00 '', ''   ''])"
    by code_simp
  have e2: "outcome (play ?G (?ms @ [(2, 2)]))
              = Inr (True, False, ''Cross Player'', [''XXX'', ''00 '', ''  X''])"
    by code_simp
  have e3: "on_empty ?G (?ms @ [(2, 2)])"
    by code_simp
  obtain m' h' where p': "play ?G (?ms @ [(2, 2)]) = Inr (m', h')"
    using outcome_Inr[OF e2] by blast
  obtain m h tr where p: "play ?G ?ms = Inr (m, h)" and s: "setCell m h 2 2 = Inr (m', h', tr)"
    using play_last[OF p'] by blast
  have fe: "flag_end m" using e1 p by (simp add: outcome_def)
  have "flag_end m' \<and> \<not> (flag_end m' \<and> flag_draw m')"
    using C2_flags_persist[OF st c p[unfolded G] s] fe e3[unfolded G] by simp
  then show ?thesis using e1 e2 e3 c G by simp
qed

text \<open>
  The claim as stated fails in two ways. \<^verbatim>\<open>setCell\<close> checks neither the state of the game
  nor the cell: after nine moves the grid is full with no line (Drawn), and a tenth call
  writes the cross player's symbol over a nought, completes the top row and sets
  \<^verbatim>\<open>flag_end\<close> while \<^verbatim>\<open>flag_draw\<close> stays set. And \<^verbatim>\<open>startPlay\<close> called on a won or drawn
  game leaves the flag set on a blank grid, so the next \<^verbatim>\<open>setCell\<close> clears it: the state
  leaves Won, or Drawn.
\<close>

theorem C2_counterexample:
  "outcome (play (new_game 3 [] empty_heap)
      [(0, 0), (0, 1), (0, 2), (1, 1), (1, 0), (1, 2), (2, 1), (2, 0), (2, 2)])
     = Inr (False, True, ''Cross Player'', [''X0X'', ''X00'', ''0XX''])
   \<and> outcome (play (new_game 3 [] empty_heap)
      [(0, 0), (0, 1), (0, 2), (1, 1), (1, 0), (1, 2), (2, 1), (2, 0), (2, 2), (0, 1)])
     = Inr (True, True, ''Cross Player'', [''XXX'', ''X00'', ''0XX''])
   \<and> outcome (play (new_game 3 [] empty_heap) [(0, 0), (1, 0), (0, 1), (1, 1), (0, 2)])
     = Inr (True, False, ''Cross Player'', [''XXX'', ''00 '', ''   ''])
   \<and> outcome (play_on (restart 3 (play (new_game 3 [] empty_heap)
        [(0, 0), (1, 0), (0, 1), (1, 1), (0, 2)])) [(0, 0)])
     = Inr (False, False, ''Zero Player'', [''X  '', ''   '', ''   ''])
   \<and> outcome (play_on (restart 3 (play (new_game 3 [] empty_heap)
        [(0, 0), (0, 1), (0, 2), (1, 1), (1, 0), (1, 2), (2, 1), (2, 0), (2, 2)])) [(0, 0)])
     = Inr (False, False, ''Zero Player'', [''X  '', ''   '', ''   ''])"
proof -
  have e0: "outcome (play (new_game 3 [] empty_heap)
      [(0, 0), (0, 1), (0, 2), (1, 1), (1, 0), (1, 2), (2, 1), (2, 0), (2, 2)])
     = Inr (False, True, ''Cross Player'', [''X0X'', ''X00'', ''0XX''])"
    by code_simp
  have e1: "outcome (play (new_game 3 [] empty_heap)
      [(0, 0), (0, 1), (0, 2), (1, 1), (1, 0), (1, 2), (2, 1), (2, 0), (2, 2)])
     = Inr (False, True, ''Cross Player'', [''X0X'', ''X00'', ''0XX''])
   \<and> outcome (play (new_game 3 [] empty_heap)
      [(0, 0), (0, 1), (0, 2), (1, 1), (1, 0), (1, 2), (2, 1), (2, 0), (2, 2), (0, 1)])
     = Inr (True, True, ''Cross Player'', [''XXX'', ''X00'', ''0XX''])"
    by code_simp
  have e2: "outcome (play (new_game 3 [] empty_heap) [(0, 0), (1, 0), (0, 1), (1, 1), (0, 2)])
     = Inr (True, False, ''Cross Player'', [''XXX'', ''00 '', ''   ''])"
    by code_simp
  have g: "[''X  '', ''   '', ''   ''] = put (replicate 3 (replicate 3 CHR '' '')) (py_pos 3 0) (py_pos 3 0)
                    (if ''Cross Player'' = player_X then CHR ''X'' else CHR ''0'')"
    by code_simp
  have w: "\<not> spec_won 3 [''X  '', ''   '', ''   '']" "\<not> spec_full [''X  '', ''   '', ''   '']"
    by code_simp+
  have b: "- int 3 \<le> (0::int)" "(0::int) < int 3" by simp_all
  show ?thesis
    using e1 e2 restart_then_setCell[OF e2 b b g] restart_then_setCell[OF e0 b b g] w
    by (simp add: player_X_def player_0_def)
qed

text \<open>
  Claim C3. For every successful \<^verbatim>\<open>setCell\<close>: when the state it leaves is neither Won
  nor Drawn, the active player is the other player and so the symbol to place flips;
  when it is Won or Drawn, the active player is unchanged. In a game, when the call
  leaves the state Won, the symbol of the active player holds a whole line.
\<close>

theorem C3_active_player_after_setCell:
  assumes "setCell m h x y = Inr (m', h', tr)"
  shows "(if \<not> flag_end m' \<and> \<not> flag_draw m'
          then active_player m' = (if active_player m = player_X then player_0 else player_X)
               \<and> mark m' \<noteq> mark m
          else active_player m' = active_player m \<and> mark m' = mark m)
         \<and> (game_inv N m h \<longrightarrow> flag_end m' \<longrightarrow> line_of N (deref h' (field m')) (mark m'))"
proof -
  obtain h1 where ca: "cell_assign h (field m) x y (mark m) = Inr h1"
    using assms by (auto simp: setCell_def split: sum.splits)
  have ns: "nextStep m h1 = Inr (m', tr)" and h': "h' = h1"
    using assms ca by (auto simp: setCell_def split: sum.splits)
  obtain w where cw: "checkWinner (size_m m) (deref h1 (field m)) = Inr w"
    using ns by (auto simp: nextStep_def split: sum.splits)
  have m': "m' = (if w then m\<lparr>flag_end := True\<rparr>
                  else if isFullField (deref h1 (field m)) then m\<lparr>flag_end := False, flag_draw := True\<rparr>
                  else if active_player m = player_X
                       then m\<lparr>flag_end := False, flag_draw := False, active_player := player_0\<rparr>
                       else m\<lparr>flag_end := False, flag_draw := False, active_player := player_X\<rparr>)"
    using ns cw by (auto simp: nextStep_def Let_def)
  have 1: "if \<not> flag_end m' \<and> \<not> flag_draw m'
          then active_player m' = (if active_player m = player_X then player_0 else player_X)
               \<and> mark m' \<noteq> mark m
          else active_player m' = active_player m \<and> mark m' = mark m"
    unfolding m' using players_differ by (simp add: mark_def)
  have 2: "line_of N (deref h' (field m')) (mark m')" if "game_inv N m h" "flag_end m'"
    using setCell_inv(1)[OF that(1) assms] that(2) by (simp add: game_inv_def)
  show ?thesis using 1 2 by blast
qed

theorem C3_witness:
  "outcome (play (new_game 3 [] empty_heap) [(0, 0), (1, 0), (0, 1), (1, 1)])
     = Inr (False, False, ''Cross Player'', [''XX '', ''00 '', ''   ''])
   \<and> outcome (play (new_game 3 [] empty_heap) ([(0, 0), (1, 0), (0, 1), (1, 1)] @ [(2, 2)]))
     = Inr (False, False, ''Zero Player'', [''XX '', ''00 '', ''  X''])
   \<and> outcome (play (new_game 3 [] empty_heap) ([(0, 0), (1, 0), (0, 1), (1, 1)] @ [(0, 2)]))
     = Inr (True, False, ''Cross Player'', [''XXX'', ''00 '', ''   ''])
   \<and> line_of 3 [''XXX'', ''00 '', ''   ''] CHR ''X''"
proof -
  let ?G = "new_game (int 3) [] empty_heap"
  let ?ms = "[(0, 0), (1, 0), (0, 1), (1, 1)] :: (int \<times> int) list"
  have e1: "outcome (play ?G ?ms) = Inr (False, False, ''Cross Player'', [''XX '', ''00 '', ''   ''])"
    by code_simp
  have e2: "outcome (play ?G (?ms @ [(2, 2)]))
              = Inr (False, False, ''Zero Player'', [''XX '', ''00 '', ''  X''])"
    by code_simp
  have e3: "outcome (play ?G (?ms @ [(0, 2)]))
              = Inr (True, False, ''Cross Player'', [''XXX'', ''00 '', ''   ''])"
    by code_simp
  obtain m2 h2 where p2: "play ?G (?ms @ [(2, 2)]) = Inr (m2, h2)"
    using outcome_Inr[OF e2] by blast
  obtain m h tr where p: "play ?G ?ms = Inr (m, h)" and s2: "setCell m h 2 2 = Inr (m2, h2, tr)"
    using play_last[OF p2] by blast
  obtain m3 h3 where p3: "play ?G (?ms @ [(0, 2)]) = Inr (m3, h3)"
    using outcome_Inr[OF e3] by blast
  obtain tr3 where s3: "setCell m h 0 2 = Inr (m3, h3, tr3)"
    using play_last[OF p3] p by auto
  have g: "game_inv 3 (fst ?G) (snd ?G)"
    using new_game_inv[of 3 "[]" empty_heap "fst ?G" "snd ?G"] by simp
  have inv: "game_inv 3 m h"
    using play_inv[OF g p] by simp
  have a: "active_player m = ''Cross Player''" using e1 p by (simp add: outcome_def)
  have f2: "\<not> flag_end m2 \<and> \<not> flag_draw m2" using e2 p2 by (simp add: outcome_def)
  have f3: "flag_end m3" and g3: "deref h3 (field m3) = [''XXX'', ''00 '', ''   '']"
    and a3: "active_player m3 = ''Cross Player''"
    using e3 p3 by (simp_all add: outcome_def)
  have "active_player m2 = ''Zero Player''"
    using C3_active_player_after_setCell[OF s2, of 3] f2 a by (simp add: player_X_def player_0_def)
  moreover have "line_of 3 (deref h3 (field m3)) (mark m3)"
    using C3_active_player_after_setCell[OF s3, of 3] f3 inv by auto
  ultimately show ?thesis
    using e1 e2 e3 g3 a3 by (simp add: mark_def player_X_def)
qed

text \<open>
  Claim C4 fails on the code: \<^verbatim>\<open>getData\<close> copies the field with \<^verbatim>\<open>copy.copy\<close>, which
  copies the outer list only. On a new 3 by 3 game, an observer that assigns
  \<^verbatim>\<open>"X"\<close> to cell \<open>[0][0]\<close> of the field it received changes the model's own grid;
  replacing a whole row of the received field does not.
\<close>

theorem C4_snapshot_shares_rows:
  "outcome (play (new_game 3 [] empty_heap) []) = Inr (False, False, ''Cross Player'', [''   '', ''   '', ''   ''])
   \<and> observer_writes_cell (new_game 3 [] empty_heap) 0 0 CHR ''X'' = Inr [''X  '', ''   '', ''   '']
   \<and> observer_writes_row (new_game 3 [] empty_heap) 0 ''XXX'' = Inr [''   '', ''   '', ''   '']"
  by code_simp

text \<open>
  Claim C5, as amended. For every size \<open>N\<close> and every prior state, setting the size to
  \<open>N\<close> and calling \<^verbatim>\<open>startPlay\<close> leaves a grid of \<open>N\<close> rows of \<open>N\<close> empty cells and
  notifies every registered observer in registration order; the active player and the
  two flags are left as they were. A newly constructed model (\<^verbatim>\<open>__init__\<close>) has the
  cross player active and both flags clear.
\<close>

theorem C5_startPlay_blank_grid:
  assumes "startWithSize (int N) m h = (m', h', tr)"
  shows "deref h' (field m') = replicate N (replicate N CHR '' '')
       \<and> size_m m' = int N \<and> tr = observers m \<and> observers m' = observers m
       \<and> active_player m' = active_player m
       \<and> flag_end m' = flag_end m \<and> flag_draw m' = flag_draw m
       \<and> active_player (fst (init h0)) = player_X
       \<and> \<not> flag_end (fst (init h0)) \<and> \<not> flag_draw (fst (init h0))"
proof -
  have sp: "startPlay (set_size m (int N)) h = (m', h', tr)"
    using assms by (simp add: startWithSize_def)
  note a = startPlay_spec[OF sp]
  have m': "m' = (set_size m (int N))\<lparr>field := field m'\<rparr>" using a by blast
  have f: "size_m m' = int N" "observers m' = observers m" "active_player m' = active_player m"
          "flag_end m' = flag_end m" "flag_draw m' = flag_draw m"
    by (subst m', simp add: set_size_def)+
  have g: "deref h' (field m') = replicate N (replicate N CHR '' '')"
    using a by (simp add: set_size_def)
  have t: "tr = observers m" using a by (simp add: set_size_def)
  show ?thesis
    using f g t by (simp add: init_def new_list_def)
qed

theorem C5_witness:
  "outcome (play (new_game 3 [] empty_heap) [(0, 0)])
     = Inr (False, False, ''Zero Player'', [''X  '', ''   '', ''   ''])
   \<and> outcome (restart 4 (play (new_game 3 [] empty_heap) [(0, 0)]))
     = Inr (False, False, ''Zero Player'', [''    '', ''    '', ''    '', ''    ''])
   \<and> active_player (fst (init empty_heap)) = ''Cross Player''"
proof -
  let ?G = "new_game (int 3) [] empty_heap"
  have e1: "outcome (play ?G [(0, 0)]) = Inr (False, False, ''Zero Player'', [''X  '', ''   '', ''   ''])"
    by code_simp
  obtain m h where p: "play ?G [(0, 0)] = Inr (m, h)"
    using outcome_Inr[OF e1] by blast
  obtain m' h' tr where s: "startWithSize (int 4) m h = (m', h', tr)"
    by (cases "startWithSize (int 4) m h") auto
  have v: "flag_end m = False" "flag_draw m = False" "active_player m = ''Zero Player''"
    using e1 p by (simp_all add: outcome_def)
  have r: "restart 4 (play ?G [(0, 0)]) = Inr (m', h')"
    using p s by (simp add: restart_def)
  have "outcome (Inr (m', h')) = Inr (False, False, ''Zero Player'', replicate 4 (replicate 4 CHR '' ''))
        \<and> active_player (fst (init empty_heap)) = player_X"
    using C5_startPlay_blank_grid[OF s, of empty_heap] v by (simp add: outcome_def)
  then show ?thesis
    using e1 r by (simp add: numeral_eq_Suc player_X_def)
qed

text \<open>
  The claim as stated fails: \<^verbatim>\<open>startPlay\<close> assigns the field only. Called again after one
  move it leaves the nought player active; called again after a won game it leaves
  \<^verbatim>\<open>flag_end\<close> set.
\<close>

theorem C5_counterexample:
  "outcome (restart 3 (play (new_game 3 [] empty_heap) [(0, 0)]))
     = Inr (False, False, ''Zero Player'', [''   '', ''   '', ''   ''])
   \<and> outcome (restart 3 (play (new_game 3 [] empty_heap) [(0, 0), (1, 0), (0, 1), (1, 1), (0, 2)]))
     = Inr (True, False, ''Cross Player'', [''   '', ''   '', ''   ''])
   \<and> player_X = ''Cross Player''"
proof -
  have e1: "outcome (play (new_game 3 [] empty_heap) [(0, 0)])
              = Inr (False, False, ''Zero Player'', [''X  '', ''   '', ''   ''])"
    by code_simp
  have e2: "outcome (play (new_game 3 [] empty_heap) [(0, 0), (1, 0), (0, 1), (1, 1), (0, 2)])
              = Inr (True, False, ''Cross Player'', [''XXX'', ''00 '', ''   ''])"
    by code_simp
  show ?thesis
    using restart_outcome[OF e1, of 3] restart_outcome[OF e2, of 3]
    by (simp add: numeral_eq_Suc player_X_def)
qed

text \<open>
  Claim C6 fails on the code: the range check is \<^verbatim>\<open>(x > size) or (y > size)\<close> only. On a
  new 3 by 3 game the line \<^verbatim>\<open>4 1\<close> is refused, then the line \<^verbatim>\<open>0 1\<close> is accepted and the
  view calls \<^verbatim>\<open>setCell(-1, 0)\<close>, which marks the first cell of the last row; the line
  \<^verbatim>\<open>-5 1\<close> raises an IndexError that nothing catches.
\<close>

theorem C6_zero_coordinate_accepted:
  "map_sum id fst (updateCurrentSituation (fst (new_game 3 [] empty_heap))
       (snd (new_game 3 [] empty_heap)) [''4 1'', ''0 1'']) = Inr (CallSetCell (- 1) 0)
   \<and> outcome (play (new_game 3 [] empty_heap) [(- 1, 0)])
       = Inr (False, False, ''Zero Player'', [''   '', ''   '', ''X  ''])
   \<and> checkLine 3 [''   '', ''   '', ''   ''] ''4 1'' = Inr (Again TooGreat)
   \<and> checkLine 3 [''   '', ''   '', ''   ''] ''0 1'' = Inr (Break 0 1)
   \<and> checkLine 3 [''   '', ''   '', ''   ''] ''-5 1'' = Inl IndexError"
  by code_simp

text \<open>
  Claim C7, as amended. After every successful \<^verbatim>\<open>setCell\<close> on a grid of side \<open>N\<close>,
  \<^verbatim>\<open>flag_end\<close> says whether the grid has a whole line; \<^verbatim>\<open>flag_draw\<close> says whether no cell
  is empty when the grid has no whole line, and keeps the value it had before the call
  when the grid has one. So \<^verbatim>\<open>flag_draw\<close> is set exactly when the grid has no whole line
  and no empty cell whenever it was clear before the call, and the state the view shows
  (\<^verbatim>\<open>flag_end\<close> tested first) is the draw exactly then. \<^verbatim>\<open>isFullField\<close> returns True
  exactly when no cell is empty.
\<close>

theorem C7_flag_draw_after_setCell:
  assumes wf: "well_formed N m h" and s: "setCell m h x y = Inr (m', h', tr)"
  shows "flag_end m' = spec_won N (deref h' (field m'))
       \<and> flag_draw m' = (if spec_won N (deref h' (field m')) then flag_draw m
                          else spec_full (deref h' (field m')))
       \<and> (if flag_draw m then True
          else flag_draw m' = (\<not> spec_won N (deref h' (field m')) \<and> spec_full (deref h' (field m'))))
       \<and> (situation (flag_end m') (flag_draw m') (active_player m') = Draw)
           = (\<not> spec_won N (deref h' (field m')) \<and> spec_full (deref h' (field m')))
       \<and> isFullField f = spec_full f"
proof -
  note r = setCell_Inr[OF wf s]
  have fe: "flag_end m' = spec_won N (deref h' (field m'))" using r by blast
  have fd: "flag_draw m' = (if spec_won N (deref h' (field m')) then flag_draw m
                        else spec_full (deref h' (field m')))" using r by blast
  show ?thesis
    unfolding situation_def fe fd by (simp add: isFullField_spec)
qed

theorem C7_witness:
  "outcome (play (new_game 3 [] empty_heap)
      ([(0, 0), (0, 1), (0, 2), (1, 1), (1, 0), (1, 2), (2, 1), (2, 0)] @ [(2, 2)]))
     = Inr (False, True, ''Cross Player'', [''X0X'', ''X00'', ''0XX''])
   \<and> situation False True ''Cross Player'' = Draw
   \<and> \<not> spec_won 3 [''X0X'', ''X00'', ''0XX''] \<and> spec_full [''X0X'', ''X00'', ''0XX'']
   \<and> isFullField [''X0X'', ''X00'', ''0XX'']"
proof -
  let ?G = "new_game (int 3) [] empty_heap"
  let ?ms = "[(0, 0), (0, 1), (0, 2), (1, 1), (1, 0), (1, 2), (2, 1), (2, 0)] :: (int \<times> int) list"
  have e: "outcome (play ?G (?ms @ [(2, 2)]))
              = Inr (False, True, ''Cross Player'', [''X0X'', ''X00'', ''0XX''])"
    by code_simp
  obtain m' h' where p': "play ?G (?ms @ [(2, 2)]) = Inr (m', h')"
    using outcome_Inr[OF e] by blast
  obtain m h tr where p: "play ?G ?ms = Inr (m, h)" and s: "setCell m h 2 2 = Inr (m', h', tr)"
    using play_last[OF p'] by blast
  have wf: "well_formed 3 m h"
    using play_wf[OF new_game_wf[of 3 "[]" empty_heap] p] by simp
  have v: "flag_end m' = False" "flag_draw m' = True" "active_player m' = ''Cross Player''"
          "deref h' (field m') = [''X0X'', ''X00'', ''0XX'']"
    using e p' by (simp_all add: outcome_def)
  have d: "situation False True ''Cross Player'' = Draw" by (simp add: situation_def)
  show ?thesis
    using C7_flag_draw_after_setCell[OF wf s, of "[''X0X'', ''X00'', ''0XX'']"] e d
    unfolding v by simp
qed

text \<open>
  The claim as stated fails for a call on a state that is already Drawn: the tenth call
  below completes a line on the full grid, and \<^verbatim>\<open>flag_draw\<close> stays set though the grid
  has a whole line.
\<close>

theorem C7_counterexample:
  "outcome (play (new_game 3 [] empty_heap)
      [(0, 0), (0, 1), (0, 2), (1, 1), (1, 0), (1, 2), (2, 1), (2, 0), (2, 2), (0, 1)])
     = Inr (True, True, ''Cross Player'', [''XXX'', ''X00'', ''0XX''])
   \<and> spec_won 3 [''XXX'', ''X00'', ''0XX''] \<and> spec_full [''XXX'', ''X00'', ''0XX'']"
  by code_simp

text \<open>
  Claim C8. \<^verbatim>\<open>getData\<close> called any number of times in a row returns the same value each
  time (size, flags, active player and the grid's content; the outer list is a new
  object at each call) and leaves the model's grid, every row and the model's own list
  as they were. The model's attributes are not assigned by \<^verbatim>\<open>getData\<close> at all.
\<close>

theorem C8_getData_no_side_effect:
  assumes "field m < fresh h" and "getData_times k m h = (vs, h')"
  shows "vs = replicate k (size_m m, flag_end m, flag_draw m, active_player m, deref h (field m))
       \<and> deref h' (field m) = deref h (field m)
       \<and> rows h' = rows h \<and> lists h' (field m) = lists h (field m)"
  using assms
proof (induction k arbitrary: h vs h')
  case 0
  then show ?case by simp
next
  case (Suc k)
  let ?h1 = "h\<lparr>lists := (lists h)(fresh h := lists h (field m)), fresh := Suc (fresh h)\<rparr>"
  have gd: "getData m h = ((size_m m, flag_end m, flag_draw m, active_player m, fresh h), ?h1)"
    by (simp add: getData_def new_list_def)
  obtain vs2 h2 where r: "getData_times k m ?h1 = (vs2, h2)"
    by (cases "getData_times k m ?h1") auto
  have v: "snapshot_value ?h1 (size_m m, flag_end m, flag_draw m, active_player m, fresh h)
           = (size_m m, flag_end m, flag_draw m, active_player m, deref h (field m))"
    by (simp add: snapshot_value_def deref_def)
  have eq: "vs = (size_m m, flag_end m, flag_draw m, active_player m, deref h (field m)) # vs2"
           "h' = h2"
    using Suc.prems(2) r by (simp_all add: gd v)
  have b: "field m < fresh ?h1" using Suc.prems(1) by simp
  have same: "deref ?h1 (field m) = deref h (field m)" "rows ?h1 = rows h"
             "lists ?h1 (field m) = lists h (field m)"
    using Suc.prems(1) by (simp_all add: deref_def)
  show ?case
    unfolding eq using Suc.IH[OF b r] same by simp
qed

theorem C8_witness:
  "field (fst (new_game 3 [] empty_heap)) < fresh (snd (new_game 3 [] empty_heap))
   \<and> fst (getData_times 2 (fst (new_game 3 [] empty_heap)) (snd (new_game 3 [] empty_heap)))
       = [(3, False, False, ''Cross Player'', [''   '', ''   '', ''   '']),
          (3, False, False, ''Cross Player'', [''   '', ''   '', ''   ''])]
   \<and> deref (snd (getData_times 2 (fst (new_game 3 [] empty_heap)) (snd (new_game 3 [] empty_heap))))
        (field (fst (new_game 3 [] empty_heap))) = [''   '', ''   '', ''   '']"
proof -
  let ?G = "new_game (int 3) [] empty_heap"
  have lt: "field (fst ?G) < fresh (snd ?G)" by code_simp
  have v: "(size_m (fst ?G), flag_end (fst ?G), flag_draw (fst ?G), active_player (fst ?G),
            deref (snd ?G) (field (fst ?G))) = (3, False, False, ''Cross Player'', [''   '', ''   '', ''   ''])"
    by code_simp
  obtain vs h' where g: "getData_times 2 (fst ?G) (snd ?G) = (vs, h')"
    by (cases "getData_times 2 (fst ?G) (snd ?G)") auto
  have "vs = replicate 2 (3, False, False, ''Cross Player'', [''   '', ''   '', ''   ''])
        \<and> deref h' (field (fst ?G)) = [''   '', ''   '', ''   '']"
    using C8_getData_no_side_effect[OF lt g] v by simp
  then show ?thesis
    using lt g by (simp add: numeral_eq_Suc)
qed

text \<open>
  Claim C9. On a grid of side \<open>N\<close> made of \<open>N\<close> different row objects, \<^verbatim>\<open>setCell(x, y)\<close>
  with \<open>0 \<le> x, y < N\<close> succeeds, writes the active player's symbol (\<^verbatim>\<open>"X"\<close> for the
  cross player, \<^verbatim>\<open>"0"\<close> otherwise) into cell \<open>[x][y]\<close>, leaves every other cell and every
  other row object as it was, and leaves the size, the observers and the shape of the
  grid unchanged. \<^verbatim>\<open>startPlay\<close> builds such a grid: its \<open>N\<close> rows are different objects.
\<close>

theorem C9_setCell_frame:
  assumes wf: "well_formed N m h" and x: "0 \<le> x" "x < int N" and y: "0 \<le> y" "y < int N"
  shows "\<exists>m' h' tr. setCell m h x y = Inr (m', h', tr)
       \<and> deref h' (field m') ! nat x ! nat y
           = (if active_player m = player_X then CHR ''X'' else CHR ''0'')
       \<and> (\<forall>i<N. \<forall>j<N. if i = nat x \<and> j = nat y then True
                         else deref h' (field m') ! i ! j = deref h (field m) ! i ! j)
       \<and> (\<forall>i<N. if i = nat x then True
                  else rows h' (lists h (field m) ! i) = rows h (lists h (field m) ! i))
       \<and> size_m m' = size_m m \<and> observers m' = observers m \<and> field m' = field m
       \<and> lists h' = lists h \<and> well_formed N m' h'
       \<and> distinct (lists (fst (snd (startWithSize (int N) m0 h0)))
                     (field (fst (startWithSize (int N) m0 h0))))
       \<and> well_formed N (fst (startWithSize (int N) m0 h0)) (fst (snd (startWithSize (int N) m0 h0)))"
proof -
  have x': "- int N \<le> x" and y': "- int N \<le> y" using x y by simp_all
  obtain h' where st: "setCell m h x y =
     Inr (m\<lparr>flag_end := spec_won N (put (deref h (field m)) (py_pos N x) (py_pos N y) (mark m)),
             flag_draw := (if spec_won N (put (deref h (field m)) (py_pos N x) (py_pos N y) (mark m))
                           then flag_draw m
                           else spec_full (put (deref h (field m)) (py_pos N x) (py_pos N y) (mark m))),
             active_player :=
               (if spec_won N (put (deref h (field m)) (py_pos N x) (py_pos N y) (mark m))
                   \<or> spec_full (put (deref h (field m)) (py_pos N x) (py_pos N y) (mark m))
                then active_player m
                else if active_player m = player_X then player_0 else player_X)\<rparr>,
          h', observers m)"
    using setCell_square[OF wf x' x(2) y' y(2)] by blast
  obtain m' where st': "setCell m h x y = Inr (m', h', observers m)"
    using st by blast
  note r = setCell_Inr[OF wf st']
  have px: "py_pos N x = nat x" and py: "py_pos N y = nat y"
    using x y by (simp_all add: py_pos_def)
  have i: "nat x < N" and j: "nat y < N" using x y by simp_all
  have sq: "square N (deref h (field m))" and d: "distinct (lists h (field m))"
    and len: "length (lists h (field m)) = N"
    using wf by (simp_all add: well_formed_def square_def deref_def)
  have g: "deref h' (field m') = put (deref h (field m)) (nat x) (nat y) (mark m)"
    unfolding px[symmetric] py[symmetric] using r by blast
  have fld: "field m' = field m" and l: "lists h' = lists h" using r by blast+
  have cell: "\<And>a b. a < N \<Longrightarrow> b < N \<Longrightarrow> deref h' (field m') ! a ! b =
        (if a = nat x \<and> b = nat y then mark m else deref h (field m) ! a ! b)"
    unfolding g by (rule put_nth[OF sq i j])
  have row: "\<And>a. a < N \<Longrightarrow> a \<noteq> nat x \<Longrightarrow>
       rows h' (lists h (field m) ! a) = rows h (lists h (field m) ! a)"
  proof -
    fix a assume a: "a < N" "a \<noteq> nat x"
    have "deref h' (field m') ! a = deref h (field m) ! a"
      unfolding g using a by (simp add: put_def)
    then show "rows h' (lists h (field m) ! a) = rows h (lists h (field m) ! a)"
      unfolding fld using a len by (simp add: deref_def l)
  qed
  obtain m1 h1 t1 where sp: "startWithSize (int N) m0 h0 = (m1, h1, t1)"
    by (cases "startWithSize (int N) m0 h0") auto
  have sp': "startPlay (set_size m0 (int N)) h0 = (m1, h1, t1)"
    using sp by (simp add: startWithSize_def)
  note a = startPlay_spec[OF sp']
  have m1: "m1 = (set_size m0 (int N))\<lparr>field := field m1\<rparr>" using a by blast
  have sz: "size_m m1 = int N" by (subst m1) (simp add: set_size_def)
  have dist: "distinct (lists h1 (field m1))" using a by blast
  have gr: "deref h1 (field m1) = replicate N (replicate N CHR '' '')"
    using a by (simp add: set_size_def)
  have wf1: "well_formed N m1 h1"
    unfolding well_formed_def gr using sz dist by (simp add: blank_square)
  have c1: "deref h' (field m') ! nat x ! nat y
              = (if active_player m = player_X then CHR ''X'' else CHR ''0'')"
    using cell[OF i j] by (simp add: mark_def)
  have c2: "\<forall>i<N. \<forall>j<N. if i = nat x \<and> j = nat y then True
                         else deref h' (field m') ! i ! j = deref h (field m) ! i ! j"
    using cell by simp
  have c3: "\<forall>i<N. if i = nat x then True
                  else rows h' (lists h (field m) ! i) = rows h (lists h (field m) ! i)"
    using row by simp
  have c4: "size_m m' = size_m m" "observers m' = observers m" "well_formed N m' h'"
    using r by blast+
  show ?thesis
    unfolding sp fst_conv snd_conv
    using st' c1 c2 c3 c4 fld l dist wf1 by blast
qed

theorem C9_witness:
  "well_formed 3 (fst (new_game 3 [] empty_heap)) (snd (new_game 3 [] empty_heap))
   \<and> outcome (play (new_game 3 [] empty_heap) [(1, 2)])
       = Inr (False, False, ''Zero Player'', [''   '', ''  X'', ''   ''])
   \<and> outcome (play (new_game 3 [] empty_heap) ([(1, 2)] @ [(0, 0)]))
       = Inr (False, False, ''Cross Player'', [''0  '', ''  X'', ''   ''])"
proof -
  let ?G = "new_game 3 [] empty_heap"
  have wf: "well_formed 3 (fst ?G) (snd ?G)" using new_game_wf[of 3 "[]" empty_heap] by simp
  have a0: "active_player (fst ?G) = player_X" by code_simp
  have e1: "outcome (play ?G [(1, 2)]) = Inr (False, False, ''Zero Player'', [''   '', ''  X'', ''   ''])"
    by code_simp
  have e2: "outcome (play ?G ([(1, 2)] @ [(0, 0)]))
              = Inr (False, False, ''Cross Player'', [''0  '', ''  X'', ''   ''])"
    by code_simp
  have b1: "(0::int) \<le> 1" "(1::int) < int 3" "(0::int) \<le> 2" "(2::int) < int 3" by simp_all
  note i1 = C9_setCell_frame[OF wf b1, where ?m0.0 = "fst ?G" and ?h0.0 = "snd ?G"]
  from i1 obtain m1 h1 t1 where s1: "setCell (fst ?G) (snd ?G) 1 2 = Inr (m1, h1, t1)"
    and c1: "deref h1 (field m1) ! nat 1 ! nat 2
               = (if active_player (fst ?G) = player_X then CHR ''X'' else CHR ''0'')"
    and wf1: "well_formed 3 m1 h1"
    by blast
  have p1: "play ?G [(1, 2)] = Inr (m1, h1)" using s1 by simp
  have a1: "active_player m1 = ''Zero Player''" using e1 p1 by (simp add: outcome_def)
  have b2: "(0::int) \<le> 0" "(0::int) < int 3" by simp_all
  note i2 = C9_setCell_frame[OF wf1 b2 b2, where ?m0.0 = "fst ?G" and ?h0.0 = "snd ?G"]
  from i2 obtain m2 h2 t2 where s2: "setCell m1 h1 0 0 = Inr (m2, h2, t2)"
    and c2: "deref h2 (field m2) ! nat 0 ! nat 0
               = (if active_player m1 = player_X then CHR ''X'' else CHR ''0'')"
    and k2: "\<forall>i<3. \<forall>j<3. if i = nat 0 \<and> j = nat 0 then True
                         else deref h2 (field m2) ! i ! j = deref h1 (field m1) ! i ! j"
    by blast
  have x: "deref h1 (field m1) ! 1 ! 2 = CHR ''X''" using c1 a0 by simp
  have z: "deref h2 (field m2) ! 0 ! 0 = CHR ''0''"
    using c2 a1 by (simp add: player_X_def)
  have keep: "deref h2 (field m2) ! 1 ! 2 = CHR ''X''"
    using k2 x by (simp add: numeral_eq_Suc All_less_Suc)
  have p2: "play ?G ([(1, 2)] @ [(0, 0)]) = Inr (m2, h2)" using play_step[OF p1 s2] .
  have "[''0  '', ''  X'', ''   ''] ! 0 ! 0 = CHR ''0'' \<and> [''0  '', ''  X'', ''   ''] ! 1 ! 2 = CHR ''X''"
    using z keep e2 p2 by (simp add: outcome_def)
  then show ?thesis using wf e1 e2 by simp
qed

text \<open>
  Claim C10. On a grid of side \<open>N\<close>, \<^verbatim>\<open>setCell(x, y)\<close> with \<open>x\<close> and \<open>y\<close> in
  \<open>[-N, N-1]\<close> does not fail: a negative index \<open>i\<close> denotes position \<open>N + i\<close>, and
  the symbol is written there. The view lets such coordinates through: when that cell is
  empty, its check accepts the one-based pair \<open>(x + 1, y + 1)\<close> also for \<open>x + 1 \<le> 0\<close>.
\<close>

theorem C10_negative_index_wraps:
  assumes wf: "well_formed N m h"
    and x: "- int N \<le> x" "x < int N" and y: "- int N \<le> y" "y < int N"
  shows "\<exists>m' h' tr. setCell m h x y = Inr (m', h', tr)
       \<and> deref h' (field m') =
           put (deref h (field m)) (if x < 0 then nat (int N + x) else nat x)
               (if y < 0 then nat (int N + y) else nat y) (mark m)
       \<and> (if py_cell (deref h (field m)) x y = Inr CHR '' ''
          then checkCoords (int N) (deref h (field m)) (x + 1) (y + 1) = Inr (Break (x + 1) (y + 1))
          else True)"
proof -
  obtain m' h' tr where st: "setCell m h x y = Inr (m', h', tr)"
    using setCell_square[OF wf x y] by blast
  note r = setCell_Inr[OF wf st]
  have g: "deref h' (field m') =
           put (deref h (field m)) (if x < 0 then nat (int N + x) else nat x)
               (if y < 0 then nat (int N + y) else nat y) (mark m)"
    using r unfolding py_pos_def by blast
  have "checkCoords (int N) (deref h (field m)) (x + 1) (y + 1) = Inr (Break (x + 1) (y + 1))"
    if "py_cell (deref h (field m)) x y = Inr CHR '' ''"
    using that x y by (simp add: checkCoords_def)
  then show ?thesis using st g by auto
qed

theorem C10_witness:
  "well_formed 3 (fst (new_game 3 [] empty_heap)) (snd (new_game 3 [] empty_heap))
   \<and> outcome (play (new_game 3 [] empty_heap) [(- 1, 0)])
       = Inr (False, False, ''Zero Player'', [''   '', ''   '', ''X  ''])
   \<and> checkCoords 3 [''   '', ''   '', ''   ''] 0 1 = Inr (Break 0 1)"
proof -
  let ?G = "new_game 3 [] empty_heap"
  have wf: "well_formed 3 (fst ?G) (snd ?G)" using new_game_wf[of 3 "[]" empty_heap] by simp
  have blank: "deref (snd ?G) (field (fst ?G)) = [''   '', ''   '', ''   '']"
    and mk: "mark (fst ?G) = CHR ''X''"
    and em: "py_cell [''   '', ''   '', ''   ''] (- 1) 0 = Inr CHR '' ''"
    by code_simp+
  have b: "- int 3 \<le> (- 1::int)" "(- 1::int) < int 3" "- int 3 \<le> (0::int)" "(0::int) < int 3"
    by simp_all
  note inst = C10_negative_index_wraps[OF wf b]
  from inst obtain m' h' tr where s: "setCell (fst ?G) (snd ?G) (- 1) 0 = Inr (m', h', tr)"
    and g: "deref h' (field m') = put (deref (snd ?G) (field (fst ?G)))
              (if (- 1::int) < 0 then nat (int 3 + - 1) else nat (- 1))
              (if (0::int) < 0 then nat (int 3 + 0) else nat 0) (mark (fst ?G))"
    and c0: "if py_cell (deref (snd ?G) (field (fst ?G))) (- 1) 0 = Inr CHR '' ''
          then checkCoords (int 3) (deref (snd ?G) (field (fst ?G))) (- 1 + 1) (0 + 1)
                 = Inr (Break (- 1 + 1) (0 + 1))
          else True"
    by blast
  have c: "checkCoords 3 [''   '', ''   '', ''   ''] 0 1 = Inr (Break 0 1)"
    using c0 em unfolding blank by simp
  have e: "outcome (play ?G [(- 1, 0)]) = Inr (False, False, ''Zero Player'', [''   '', ''   '', ''X  ''])"
    by code_simp
  have "put [''   '', ''   '', ''   ''] 2 0 CHR ''X'' = [''   '', ''   '', ''X  '']"
    by (simp add: put_def)
  then have "deref h' (field m') = [''   '', ''   '', ''X  '']" using g blank mk by simp
  then show ?thesis using wf e c blank by simp
qed

end
